theory Spec2Isabelle
  imports Complex_Main "HOL-Library.AList"
begin

section \<open>Data model (pkg/contract)\<close>

text \<open>
  Go's \<open>int\<close> and \<open>int64\<close> (\<open>Index\<close>, \<open>BatchIndex\<close>) hold record positions,
  byte lengths, token estimates and their sums here; they are modelled as unbounded
  integers, that is, under the assumption that no such quantity reaches \<open>2^63\<close>.
  A Go string is a byte sequence, modelled as \<open>string\<close>, and \<open>len\<close> is \<open>length\<close>.
  A \<open>nil\<close> slice and an empty slice are both the empty list.
  \<open>Meta\<close> is \<open>map[string]string\<close>, possibly \<open>nil\<close>: \<open>None\<close> is the \<open>nil\<close> map.
\<close>

type_synonym FileID = string
type_synonym Index = int
type_synonym Meta = "(string \<rightharpoonup> string) option"

record Target =
  tFileID :: FileID
  tFrom :: Index
  tTo :: Index


record SpanResult =
  sFileID :: FileID
  sFrom :: Index
  sTo :: Index
  sOutput :: string
  sMeta :: Meta

text \<open>The sentinel errors of pkg/contract and of package context.\<close>

datatype sentinel =
    Canceled | DeadlineExceeded
  | ErrBudgetExceeded | ErrRateLimited
  | ErrResponseInvalid
  | ErrInvariantViolation | ErrInvalidInput | ErrSeqInvalid | ErrPathInvalid

text \<open>
  Go error values, as far as \<open>errors.Is\<close> and \<open>errors.As\<close> can tell them apart:
  a sentinel variable; a fresh value made by \<open>errors.New\<close> or by \<open>fmt.Errorf\<close> without
  \<open>%w\<close> (its format string and integer arguments); \<open>fmt.Errorf\<close> with one \<open>%w\<close>;
  \<open>errors.Join\<close> or \<open>fmt.Errorf\<close> with several \<open>%w\<close>; an \<open>*os.PathError\<close>
  (operation, path, wrapped error); and a value of a type with the methods \<open>Timeout\<close> and
  \<open>Temporary\<close> of \<open>net.Error\<close>, which may wrap another error (as \<open>*net.OpError\<close> does)
  or none (as the clients' \<open>upstreamError\<close>). The \<open>nil\<close> error is \<open>None\<close>.
\<close>

datatype error =
    Sentinel sentinel
  | ErrorString string
  | Errorf string "int list"
  | Wrap string error
  | Join "error list"
  | PathError string string error
  | NetError string "error option"

section \<open>Response validator (pkg/contract: ValidatePerRecord)\<close>






section \<open>Sliding-window batcher (plugins/batcher/sliding)\<close>

record Record =
  rIndex :: Index
  rFileID :: FileID
  rText :: string
  rMeta :: Meta

record Batch =
  bFileID :: FileID
  BatchIndex :: int
  Records :: "Record list"
  TargetFrom :: Index
  TargetTo :: Index

record BatchLimit =
  MaxTokens :: int

record Options =
  ContextRadius :: int
  BytesPerToken :: int
  ExtraBytesPerRecord :: int

record Batcher =
  ctxRadius :: int
  bytesPerToken :: int
  extraPerRec :: int

text \<open>\<open>New(opts)\<close>; \<open>None\<close> is the \<open>nil\<close> pointer.\<close>

definition New :: "Options option \<Rightarrow> Batcher" where
  "New opts = (case opts of
       None \<Rightarrow> \<lparr>ctxRadius = 0, bytesPerToken = 4, extraPerRec = 0\<rparr>
     | Some p \<Rightarrow>
         \<lparr>ctxRadius = (if ContextRadius p > 0 then ContextRadius p else 0),
          bytesPerToken = (if BytesPerToken p > 0 then BytesPerToken p else 4),
          extraPerRec = (if ExtraBytesPerRecord p > 0 then ExtraBytesPerRecord p else 0)\<rparr>)"

text \<open>Go's integer division truncates towards zero.\<close>

definition quot :: "int \<Rightarrow> int \<Rightarrow> int" where
  "quot a b = sgn a * sgn b * (\<bar>a\<bar> div \<bar>b\<bar>)"

definition estimateTokens :: "Batcher \<Rightarrow> string \<Rightarrow> int" where
  "estimateTokens b s =
     (let bytes = int (length s);
          bytes = (if extraPerRec b > 0 then bytes + extraPerRec b else bytes)
      in if bytes = 0 then 0
         else let d = (if bytesPerToken b \<le> 0 then 4 else bytesPerToken b)
              in quot (bytes + d - 1) d)"

text \<open>
  A call either returns or stops in an error value or in a run-time panic (an index or a
  slice bound out of range).
\<close>

datatype failure = Err error | Panic

text \<open>Indexing \<open>xs[i]\<close> and slicing \<open>xs[lo:hi]\<close>, with their bounds checks.\<close>

definition elem_at :: "'a list \<Rightarrow> int \<Rightarrow> 'a option" where
  "elem_at xs i = (if 0 \<le> i \<and> i < int (length xs) then Some (xs ! nat i) else None)"

definition slice :: "'a list \<Rightarrow> int \<Rightarrow> int \<Rightarrow> 'a list option" where
  "slice xs lo hi =
     (if 0 \<le> lo \<and> lo \<le> hi \<and> hi \<le> int (length xs)
      then Some (take (nat (hi - lo)) (drop (nat lo) xs)) else None)"

text \<open>\<open>sum(pref, a, b)\<close>: the cost of the records \<open>a..b\<close> from the prefix sums.\<close>

definition sum_pref :: "int list \<Rightarrow> int \<Rightarrow> int \<Rightarrow> int option" where
  "sum_pref pref a b =
     (if a > b then Some 0
      else let a = (if a < 0 then 0 else a);
               b = (if b + 1 \<ge> int (length pref) then int (length pref) - 2 else b)
           in case (elem_at pref (b + 1), elem_at pref a) of
                (Some x, Some y) \<Rightarrow> Some (x - y)
              | _ \<Rightarrow> None)"

text \<open>
  The context is read by \<open>ctxErr\<close> only: \<open>None\<close> while it is live, and the value of
  \<open>ctx.Err()\<close> once it is done. It is taken as fixed for the duration of a call to
  \<open>Make\<close>.
\<close>

type_synonym ctx = "error option"

text \<open>The validation loop \<open>for i := 1; i < n; i++\<close>; \<open>prev\<close> is \<open>records[i-1]\<close>.\<close>

fun checkRecords :: "ctx \<Rightarrow> FileID \<Rightarrow> Record \<Rightarrow> Record list \<Rightarrow> error option" where
  "checkRecords ctx fid prev [] = None"
| "checkRecords ctx fid prev (r # rs) =
     (case ctx of Some e \<Rightarrow> Some e
      | None \<Rightarrow>
          if rFileID r \<noteq> fid
          then Some (ErrorString ''batcher: records must have the same FileID'')
          else if rIndex r \<noteq> rIndex prev + 1
          then Some (ErrorString ''batcher: record Index must be contiguous and strictly increasing'')
          else checkRecords ctx fid r rs)"

text \<open>The prefix-sum loop; \<open>pref\<close> holds the entries \<open>pref[0..i]\<close> written so far.\<close>

fun prefLoop :: "ctx \<Rightarrow> Batcher \<Rightarrow> int list \<Rightarrow> Record list \<Rightarrow> error + int list" where
  "prefLoop ctx b pref [] = Inr pref"
| "prefLoop ctx b pref (r # rs) =
     (case ctx of Some e \<Rightarrow> Inl e
      | None \<Rightarrow> prefLoop ctx b (pref @ [last pref + estimateTokens b (rText r)]) rs)"

text \<open>\<open>need\<close> for the target \<open>l..r-1\<close> with its left and right context.\<close>

definition need :: "Batcher \<Rightarrow> int list \<Rightarrow> int \<Rightarrow> int \<Rightarrow> int \<Rightarrow> int option" where
  "need b pref n l r =
     (let L1 = l - ctxRadius b;
          L1 = (if L1 < 0 then 0 else L1);
          L2 = l - 1;
          R1 = r;
          R2 = r + ctxRadius b - 1;
          R2 = (if R2 \<ge> n then n - 1 else R2)
      in case (sum_pref pref L1 L2, sum_pref pref l (r - 1), sum_pref pref R1 R2) of
           (Some x, Some y, Some z) \<Rightarrow> Some (x + y + z)
         | _ \<Rightarrow> None)"

text \<open>The inner loop \<open>for r <= n\<close>; it returns \<open>bestR\<close>.\<close>

function expand ::
  "Batcher \<Rightarrow> ctx \<Rightarrow> int list \<Rightarrow> int \<Rightarrow> int \<Rightarrow> int \<Rightarrow> int \<Rightarrow> int \<Rightarrow> failure + int"
where
  "expand b ctx pref n budget l r bestR =
     (if r \<le> n then
        (case ctx of Some e \<Rightarrow> Inl (Err e)
         | None \<Rightarrow>
             (case need b pref n l r of
                None \<Rightarrow> Inl Panic
              | Some nd \<Rightarrow>
                  if nd \<le> budget
                  then expand b ctx pref n budget l (r + 1) (if r > l then r else bestR)
                  else Inr bestR))
      else Inr bestR)"
  by pat_completeness auto
termination
  by (relation "measure (\<lambda>(b, ctx, pref, n, budget, l, r, bestR). nat (n + 1 - r))") auto

declare expand.simps [simp del]

lemma expand_result:
  "expand b ctx pref n budget l r bestR = Inr x \<Longrightarrow> x = bestR \<or> (l < x \<and> r \<le> x \<and> x \<le> n)"
proof (induction b ctx pref n budget l r bestR rule: expand.induct)
  case (1 b ctx pref n budget l r bestR)
  show ?case
  proof (cases "r \<le> n")
    case False
    with "1.prems" show ?thesis by (simp add: expand.simps)
  next
    case True
    from "1.prems" True obtain nd where c: "ctx = None" and nd: "need b pref n l r = Some nd"
      by (subst (asm) expand.simps) (auto split: option.splits)
    show ?thesis
    proof (cases "nd \<le> budget")
      case False
      with "1.prems" True c nd show ?thesis
        by (subst (asm) expand.simps) simp
    next
      case le: True
      with "1.prems" True c nd
      have "expand b ctx pref n budget l (r + 1) (if r > l then r else bestR) = Inr x"
        by (subst (asm) expand.simps) simp
      from "1.IH" [OF True c nd le this] True show ?thesis
        by (auto split: if_splits)
    qed
  qed
qed

text \<open>The outer loop \<open>for l < n\<close>, appending one batch per round.\<close>

function makeLoop ::
  "Batcher \<Rightarrow> ctx \<Rightarrow> Record list \<Rightarrow> int list \<Rightarrow> int \<Rightarrow> int \<Rightarrow> FileID \<Rightarrow> int \<Rightarrow> int \<Rightarrow>
     Batch list \<Rightarrow> failure + Batch list"
where
  "makeLoop b ctx records pref n budget fid l batchIdx batches =
     (if l < n then
        (case ctx of Some e \<Rightarrow> Inl (Err e)
         | None \<Rightarrow>
             (case expand b ctx pref n budget l l l of
                Inl f \<Rightarrow> Inl f
              | Inr bestR \<Rightarrow>
                  if bestR = l
                  then Inl (Err (ErrorString
                         ''batcher: single target with contexts does not fit; decrease C or split''))
                  else
                    (let L1 = l - ctxRadius b;
                         L1 = (if L1 < 0 then 0 else L1);
                         R2 = bestR + ctxRadius b - 1;
                         R2 = (if R2 \<ge> n then n - 1 else R2)
                     in case (slice records L1 (R2 + 1), elem_at records l, elem_at records (bestR - 1)) of
                          (Some recSlice, Some rl, Some rb) \<Rightarrow>
                            makeLoop b ctx records pref n budget fid bestR (batchIdx + 1)
                              (batches @ [\<lparr>bFileID = fid, BatchIndex = batchIdx,
                                            Records = recSlice,
                                            TargetFrom = rIndex rl, TargetTo = rIndex rb\<rparr>])
                        | _ \<Rightarrow> Inl Panic)))
      else Inr batches)"
  by pat_completeness auto
termination
proof (relation "measure (\<lambda>(b, ctx, records, pref, n, budget, fid, l, batchIdx, batches). nat (n - l))",
    goal_cases)
  case 1
  show ?case by simp
next
  case (2 b ctx records pref n budget fid l batchIdx batches bestR)
  from expand_result [OF "2"(3)] "2"(1,4) show ?case by auto
qed

declare makeLoop.simps [simp del]

text \<open>\<open>Make(ctx, records, limit)\<close>.\<close>

definition Make :: "Batcher \<Rightarrow> ctx \<Rightarrow> Record list \<Rightarrow> BatchLimit \<Rightarrow> failure + Batch list" where
  "Make b ctx records limit =
     (if MaxTokens limit \<le> 0 then Inl (Err (ErrorString ''batcher: max tokens must be > 0''))
      else let n = int (length records) in
        if n = 0 then Inr []
        else
          (case records of
             [] \<Rightarrow> Inl Panic
           | r0 # rest \<Rightarrow>
               let fid = rFileID r0 in
               if rIndex r0 \<noteq> 0
               then Inl (Err (Errorf ''batcher: first index must be 0, got %d'' [rIndex r0]))
               else
                 (case checkRecords ctx fid r0 rest of
                    Some e \<Rightarrow> Inl (Err e)
                  | None \<Rightarrow>
                      (case prefLoop ctx b [0] records of
                         Inl e \<Rightarrow> Inl (Err e)
                       | Inr pref \<Rightarrow>
                           let budget = MaxTokens limit in
                           if budget \<le> 0
                           then Inl (Err (ErrorString ''batcher: effective token budget must be > 0''))
                           else makeLoop b ctx records pref n budget fid 0 0 []))))"

text \<open>
  The quantities the statements about the batcher speak of: the target range of a batch;
  the window that a target \<open>from..to\<close> has with \<open>C\<close> records of context on either
  side; the prefix sums of a list of costs and the cost of the positions \<open>a..b\<close>; the cost of
  a batch's records as \<open>estimateTokens\<close> counts it; the estimate in the spec's words,
  \<open>ceil((bytes + extraPerRecord) / bytesPerToken)\<close>; records of one file numbered
  \<open>0..n-1\<close>; the batcher's error for a target that does not fit; and an error value that
  \<open>errors.New\<close> or \<open>fmt.Errorf\<close> without \<open>%w\<close> makes.
\<close>

definition targets :: "Batch \<Rightarrow> int list" where
  "targets bt = [TargetFrom bt..TargetTo bt]"

definition window :: "Record list \<Rightarrow> int \<Rightarrow> Index \<Rightarrow> Index \<Rightarrow> Record list" where
  "window records C from to =
     (let lo = max 0 (from - C); hi = min (int (length records) - 1) (to + C)
      in take (nat (hi + 1 - lo)) (drop (nat lo) records))"

fun psums :: "int \<Rightarrow> int list \<Rightarrow> int list" where
  "psums p [] = [p]"
| "psums p (c # cs) = p # psums (p + c) cs"

definition rangeCost :: "int list \<Rightarrow> int \<Rightarrow> int \<Rightarrow> int" where
  "rangeCost cs a b = sum_list (take (nat (b + 1 - a)) (drop (nat a) cs))"

definition windowCost :: "Batcher \<Rightarrow> Batch \<Rightarrow> int" where
  "windowCost b bt = (\<Sum>r\<leftarrow>Records bt. estimateTokens b (rText r))"





section \<open>Failure classification (internal/diag: Classify)\<close>

text \<open>
  \<open>errors.Is(err, target)\<close> for a sentinel target: the walk over the tree that
  \<open>Unwrap\<close> spans, comparing each node with the target.
\<close>

fun errorsIs :: "error \<Rightarrow> sentinel \<Rightarrow> bool" where
  "errorsIs (Sentinel s) t = (s = t)"
| "errorsIs (ErrorString m) t = False"
| "errorsIs (Errorf m as) t = False"
| "errorsIs (Wrap m e) t = errorsIs e t"
| "errorsIs (Join es) t = list_ex (\<lambda>e. errorsIs e t) es"
| "errorsIs (PathError p q e) t = errorsIs e t"
| "errorsIs (NetError m eo) t = (case eo of None \<Rightarrow> False | Some e \<Rightarrow> errorsIs e t)"

text \<open>\<open>errors.As(err, &perr)\<close> for \<open>perr *os.PathError\<close>: some node of the tree is one.\<close>

fun asPathError :: "error \<Rightarrow> bool" where
  "asPathError (Sentinel s) = False"
| "asPathError (ErrorString m) = False"
| "asPathError (Errorf m as) = False"
| "asPathError (Wrap m e) = asPathError e"
| "asPathError (Join es) = list_ex asPathError es"
| "asPathError (PathError p q e) = True"
| "asPathError (NetError m eo) = (case eo of None \<Rightarrow> False | Some e \<Rightarrow> asPathError e)"

text \<open>
  \<open>errors.As(err, &nerr)\<close> for \<open>nerr net.Error\<close>: some node has the methods
  \<open>Timeout\<close> and \<open>Temporary\<close>. The value \<open>context.DeadlineExceeded\<close> has them.
\<close>

fun asNetError :: "error \<Rightarrow> bool" where
  "asNetError (Sentinel s) = (s = DeadlineExceeded)"
| "asNetError (ErrorString m) = False"
| "asNetError (Errorf m as) = False"
| "asNetError (Wrap m e) = asNetError e"
| "asNetError (Join es) = list_ex asNetError es"
| "asNetError (PathError p q e) = asNetError e"
| "asNetError (NetError m eo) = True"

datatype Code =
  CodeUnknown | CodeNetwork | CodeProtocol | CodeInvariant | CodeBudget | CodeCancel | CodeIO

definition Classify :: "error option \<Rightarrow> Code" where
  "Classify err = (case err of
       None \<Rightarrow> CodeUnknown
     | Some e \<Rightarrow>
         if errorsIs e Canceled \<or> errorsIs e DeadlineExceeded then CodeCancel
         else if errorsIs e ErrBudgetExceeded \<or> errorsIs e ErrRateLimited then CodeBudget
         else if errorsIs e ErrResponseInvalid then CodeProtocol
         else if errorsIs e ErrInvariantViolation \<or> errorsIs e ErrInvalidInput
                 \<or> errorsIs e ErrSeqInvalid \<or> errorsIs e ErrPathInvalid then CodeInvariant
         else if asPathError e then CodeIO
         else if asNetError e then CodeNetwork
         else CodeUnknown)"

section \<open>Failure classification: the table of the spec\<close>







section \<open>SRT splitter (plugins/splitter/srt): the extension filter\<close>

record Options_srt =
  MaxFragmentBytes :: int
  AllowExts :: "string list option"

record Splitter =
  maxBytes :: int
  allow :: "string set option"

text \<open>The loop of \<open>New\<close> that fills the allow set: empty strings are skipped, every other
  entry is stored lower-cased.\<close>

fun allowLoop :: "(string \<Rightarrow> string) \<Rightarrow> string set \<Rightarrow> string list \<Rightarrow> string set" where
  "allowLoop lower a [] = a"
| "allowLoop lower a (e # es) =
     (if e = [] then allowLoop lower a es else allowLoop lower (insert (lower e) a) es)"

definition New_srt :: "(string \<Rightarrow> string) \<Rightarrow> Options_srt option \<Rightarrow> Splitter" where
  "New_srt lower opts =
     (let mb = (case opts of None \<Rightarrow> 0
                | Some p \<Rightarrow> if MaxFragmentBytes p > 0 then MaxFragmentBytes p else 0);
          al = (case opts of None \<Rightarrow> Some {''.srt''}
                | Some p \<Rightarrow>
                    (case AllowExts p of None \<Rightarrow> Some {''.srt''}
                     | Some es \<Rightarrow> if length es > 0 then Some (allowLoop lower {} es) else None))
      in \<lparr>maxBytes = mb, allow = al\<rparr>)"

text \<open>\<open>path.Ext\<close>: scanning from the end of the path up to the last slash, the suffix
  that starts at the first dot met; empty if there is none.\<close>

fun extScan :: "string \<Rightarrow> string \<Rightarrow> string" where
  "extScan [] suf = []"
| "extScan (c # rest) suf =
     (if c = CHR ''/'' then []
      else if c = CHR ''.'' then c # suf
      else extScan rest (c # suf))"

definition pathExt :: "string \<Rightarrow> string" where
  "pathExt p = extScan (rev p) []"

text \<open>The input stream, as far as reading it can be observed: the bytes not yet read and
  the number of \<open>Read\<close> calls made on it.\<close>

record reader =
  pending :: string
  reads :: nat

definition Split ::
  "(string \<Rightarrow> string) \<Rightarrow> (Splitter \<Rightarrow> ctx \<Rightarrow> FileID \<Rightarrow> reader \<Rightarrow> (error + Record list) \<times> reader) \<Rightarrow>
   Splitter \<Rightarrow> ctx \<Rightarrow> FileID \<Rightarrow> reader \<Rightarrow> (error + Record list) \<times> reader"
where
  "Split lower parseBlocks s ctx fileID r =
     (case allow s of
        Some a \<Rightarrow>
          (let ext = lower (pathExt fileID)
           in if ext \<notin> a then (Inr [], r) else parseBlocks s ctx fileID r)
      | None \<Rightarrow> parseBlocks s ctx fileID r)"

text \<open>
  The writer, as far as the pipeline's callback uses it: \<open>Write(ctx, id, r)\<close> either fails
  (\<open>writeErr\<close> says for which artifact, with which error) or stores the bytes of
  \<open>r\<close> under \<open>id\<close>. The assembler is a function of the file and the spans.
\<close>

record writer =
  writeErr :: "FileID \<Rightarrow> error option"
  artifacts :: "(FileID \<times> string) list"

definition Write :: "writer \<Rightarrow> FileID \<Rightarrow> string \<Rightarrow> error option \<times> writer" where
  "Write w ident bytes =
     (case writeErr w ident of
        Some e \<Rightarrow> (Some e, w)
      | None \<Rightarrow> (None, w\<lparr>artifacts := artifacts w @ [(ident, bytes)]\<rparr>))"

text \<open>The branch \<open>len(recs) == 0\<close> of the callback that \<open>Run\<close> passes to the reader: the
  empty primary artifact and the empty sidecar.\<close>

definition emptyOutputs ::
  "(FileID \<Rightarrow> SpanResult list \<Rightarrow> error + string) \<Rightarrow> writer \<Rightarrow> FileID \<Rightarrow> error option \<times> writer"
where
  "emptyOutputs assemble w fid =
     (case assemble fid [] of
        Inl aerr \<Rightarrow> (Some (Wrap ''assembler assemble'' aerr), w)
      | Inr bytes \<Rightarrow>
          (case Write w fid bytes of
             (Some werr, w1) \<Rightarrow> (Some (Wrap ''writer write'' werr), w1)
           | (None, w1) \<Rightarrow>
               (case Write w1 (fid @ ''.jsonl'') [] of
                  (Some perr, w2) \<Rightarrow> (Some (Wrap ''writer write(jsonl)'' perr), w2)
                | (None, w2) \<Rightarrow> (None, w2))))"

text \<open>The callback: split, then either the empty outputs or \<open>perFile\<close> (a parameter here).\<close>

definition onFile ::
  "(ctx \<Rightarrow> FileID \<Rightarrow> reader \<Rightarrow> (error + Record list) \<times> reader) \<Rightarrow>
   (FileID \<Rightarrow> SpanResult list \<Rightarrow> error + string) \<Rightarrow>
   (FileID \<Rightarrow> Record list \<Rightarrow> writer \<Rightarrow> error option \<times> writer) \<Rightarrow>
   ctx \<Rightarrow> FileID \<Rightarrow> reader \<Rightarrow> writer \<Rightarrow> (error option \<times> writer) \<times> reader"
where
  "onFile split assemble perFile ctx fid rc w =
     (case split ctx fid rc of
        (Inl err, rc') \<Rightarrow> ((Some (Wrap ''splitter split'' err), w), rc')
      | (Inr recs, rc') \<Rightarrow>
          if length recs = 0 then (emptyOutputs assemble w fid, rc')
          else (case perFile fid recs w of
                  (Some err, w') \<Rightarrow> ((Some (Wrap ''perFile'' err), w'), rc')
                | (None, w') \<Rightarrow> ((None, w'), rc')))"

text \<open>The allow set in the words of the splitter's documentation: \<open>.srt\<close> by default, no
  restriction (\<open>None\<close>) for an explicitly empty list, and otherwise the lower-cased
  non-empty entries.\<close>

definition allowSet :: "(string \<Rightarrow> string) \<Rightarrow> Options_srt option \<Rightarrow> string set option" where
  "allowSet lower opts = (case opts of None \<Rightarrow> Some {''.srt''}
     | Some p \<Rightarrow> (case AllowExts p of None \<Rightarrow> Some {''.srt''}
          | Some [] \<Rightarrow> None
          | Some es \<Rightarrow> Some {lower e | e. e \<in> set es \<and> e \<noteq> []}))"

text \<open>\<open>strings.ToLower\<close> on ASCII strings.\<close>

definition toLowerASCII :: "string \<Rightarrow> string" where
  "toLowerASCII =
     map (\<lambda>c. case map_of (zip ''ABCDEFGHIJKLMNOPQRSTUVWXYZ'' ''abcdefghijklmnopqrstuvwxyz'') c of
                Some d \<Rightarrow> d | None \<Rightarrow> c)"

section \<open>Dispatcher worker (internal/pipeline: the retry loop of Run)\<close>

record Message =
  Role :: string
  Content :: string

text \<open>\<open>Prompt\<close> is \<open>any\<close>; the pipeline tells \<open>TextPrompt\<close> and \<open>ChatPrompt\<close> from
  every other value (\<open>nil\<close> included).\<close>

datatype Prompt = TextPrompt string | ChatPrompt "Message list" | OtherPrompt

record Raw =
  Text :: string

type_synonym IndexMetaMap = "Index \<rightharpoonup> (string \<rightharpoonup> string)"

record Ask =
  Key :: string
  Requests :: int
  Tokens :: int

record res =
  resIdx :: int
  resSpans :: "SpanResult list"
  resErr :: "error option"

definition approxPromptTokens :: "Prompt \<Rightarrow> int \<Rightarrow> int" where
  "approxPromptTokens p bpt =
     (let bpt = (if bpt \<le> 0 then 4 else bpt) in
      case (case p of
              TextPrompt v \<Rightarrow> Some (int (length v))
            | ChatPrompt ms \<Rightarrow>
                Some (foldl (\<lambda>acc m. if Content m = [] then acc
                                         else acc + int (length (Content m))) 0 ms)
            | OtherPrompt \<Rightarrow> None) of
        None \<Rightarrow> 0
      | Some n \<Rightarrow> if n \<le> 0 then 0 else quot (n + bpt - 1) bpt)"

definition shouldRetryInvoke :: "error option \<Rightarrow> bool" where
  "shouldRetryInvoke err =
     (if err = None then False
      else (case Classify err of
              CodeCancel \<Rightarrow> False
            | CodeBudget \<Rightarrow> True
            | CodeNetwork \<Rightarrow> True
            | _ \<Rightarrow> False))"

definition shouldRetryDecode :: "error option \<Rightarrow> bool" where
  "shouldRetryDecode err = (if err = None then False else Classify err = CodeProtocol)"

text \<open>
  \<open>sleepWithCtx(ctx, d)\<close>. The first argument says how the \<open>select\<close> ends: \<open>None\<close> when
  the timer fires first, and the value of \<open>ctx.Err()\<close> when the context is done first.
  Durations are nanoseconds.
\<close>

definition sleepWithCtx :: "error option \<Rightarrow> int \<Rightarrow> error option" where
  "sleepWithCtx doneFirst d = (if d \<le> 0 then None else doneFirst)"

definition Millisecond :: int where
  "Millisecond = 1000000"

text \<open>
  What a worker meets while it handles one job. The collaborators may keep state, so each
  call is identified by the attempt (counted from 0) in which the worker makes it:
  the result of \<open>PromptBuilder.Build\<close>; of \<open>Gate.Wait\<close>; of \<open>LLM.Invoke\<close>; of the
  decoder, which either implements \<open>DecodeWithMeta\<close> or only \<open>Decode\<close>; and whether the
  context is done before the timer of the sleep that follows the attempt.
\<close>

datatype Decoder =
    Decode "int \<Rightarrow> Target \<Rightarrow> Raw \<Rightarrow> error + SpanResult list"
  | DecodeWithMeta "int \<Rightarrow> Target \<Rightarrow> Raw \<Rightarrow> IndexMetaMap \<Rightarrow> error + SpanResult list"

record jobEnv =
  Build :: "error + Prompt"
  Wait :: "int \<Rightarrow> Ask \<Rightarrow> error option"
  Invoke :: "int \<Rightarrow> error + Raw"
  decoder :: Decoder
  doneInSleep :: "int \<Rightarrow> error option"

record Settings =
  Concurrency :: int
  setMaxTokens :: int
  setBytesPerToken :: int
  MaxRetries :: int
  hasGate :: bool
  GateKey :: string

text \<open>What the worker does, in order: the start of an attempt, and the calls it makes.\<close>

datatype wevent =
    EvAttempt int
  | EvWait int Ask
  | EvInvoke int
  | EvDecode int
  | EvSleep int "error option"

text \<open>The \<open>Index \<rightarrow> Meta\<close> map handed to \<open>DecodeWithMeta\<close>: for each record of the batch a
  copy of its Meta with the source text under \<open>_src_text\<close>.\<close>

definition idxMetaOf :: "Record list \<Rightarrow> IndexMetaMap" where
  "idxMetaOf recs =
     foldl (\<lambda>idxMeta r.
              idxMeta(rIndex r \<mapsto>
                (case rMeta r of None \<Rightarrow> Map.empty | Some m \<Rightarrow> m)(''_src_text'' \<mapsto> rText r)))
           Map.empty recs"

definition runDecoder :: "Decoder \<Rightarrow> int \<Rightarrow> Target \<Rightarrow> Raw \<Rightarrow> Record list \<Rightarrow> error + SpanResult list" where
  "runDecoder dec attempt tgt raw recs =
     (case dec of
        DecodeWithMeta dm \<Rightarrow> dm attempt tgt raw (idxMetaOf recs)
      | Decode d \<Rightarrow> d attempt tgt raw)"

text \<open>
  The loop \<open>for attempt := 0; attempt < attempts; attempt++\<close> for one job. It returns the
  result sent on the result channel and the events so far. \<open>break\<close> leaves the loop with
  \<open>lastErr\<close>; \<open>continue\<close> is the recursive call.
\<close>

function attemptLoop ::
  "jobEnv \<Rightarrow> Settings \<Rightarrow> Batch \<Rightarrow> int \<Rightarrow> int \<Rightarrow> int \<Rightarrow> error option \<Rightarrow> wevent list \<Rightarrow>
     res \<times> wevent list"
where
  "attemptLoop env st b tokens attempts attempt lastErr tr =
     (if attempt < attempts then
        (let ask = \<lparr>Key = GateKey st, Requests = 1, Tokens = tokens\<rparr>;
             tgt = \<lparr>tFileID = bFileID b, tFrom = TargetFrom b, tTo = TargetTo b\<rparr>;
             tr0 = tr @ [EvAttempt attempt];
             tr1 = (if hasGate st then tr0 @ [EvWait attempt ask] else tr0)
         in case (if hasGate st then Wait env attempt ask else None) of
              Some e \<Rightarrow> (\<lparr>resIdx = BatchIndex b, resSpans = [], resErr = Some e\<rparr>, tr1)
            | None \<Rightarrow>
                (case Invoke env attempt of
                   Inl e \<Rightarrow>
                     if attempt + 1 < attempts \<and> shouldRetryInvoke (Some e)
                     then attemptLoop env st b tokens attempts (attempt + 1) (Some e)
                            (tr1 @ [EvInvoke attempt,
                                    EvSleep attempt
                                      (sleepWithCtx (doneInSleep env attempt) (200 * Millisecond))])
                     else (\<lparr>resIdx = BatchIndex b, resSpans = [], resErr = Some e\<rparr>,
                           tr1 @ [EvInvoke attempt])
                 | Inr raw \<Rightarrow>
                     (case runDecoder (decoder env) attempt tgt raw (Records b) of
                        Inl e \<Rightarrow>
                          if attempt + 1 < attempts \<and> shouldRetryDecode (Some e)
                          then attemptLoop env st b tokens attempts (attempt + 1) (Some e)
                                 (tr1 @ [EvInvoke attempt, EvDecode attempt,
                                         EvSleep attempt
                                           (sleepWithCtx (doneInSleep env attempt)
                                              (200 * Millisecond))])
                          else (\<lparr>resIdx = BatchIndex b, resSpans = [], resErr = Some e\<rparr>,
                                tr1 @ [EvInvoke attempt, EvDecode attempt])
                      | Inr spans \<Rightarrow>
                          (\<lparr>resIdx = BatchIndex b, resSpans = spans, resErr = None\<rparr>,
                           tr1 @ [EvInvoke attempt, EvDecode attempt]))))
      else (\<lparr>resIdx = BatchIndex b, resSpans = [], resErr = lastErr\<rparr>, tr))"
  by pat_completeness auto

termination
  by (relation "measure (\<lambda>(env, st, b, tokens, attempts, attempt, lastErr, tr). nat (attempts - attempt))")
     auto

declare attemptLoop.simps [simp del]

text \<open>The token estimate of the built prompt that the worker declares to the gate.\<close>

definition promptTokens :: "Settings \<Rightarrow> Prompt \<Rightarrow> int" where
  "promptTokens st p =
     (if setMaxTokens st > 0
      then approxPromptTokens p (if setBytesPerToken st \<le> 0 then 4 else setBytesPerToken st)
      else 0)"

text \<open>One job of a worker: build the prompt, estimate its tokens, run the attempts.\<close>

definition workerJob :: "jobEnv \<Rightarrow> Settings \<Rightarrow> Batch \<Rightarrow> res \<times> wevent list" where
  "workerJob env st b =
     (case Build env of
        Inl e \<Rightarrow> (\<lparr>resIdx = BatchIndex b, resSpans = [], resErr = Some e\<rparr>, [])
      | Inr p \<Rightarrow>
          (let tokens = promptTokens st p;
               attempts = MaxRetries st + 1
           in attemptLoop env st b tokens attempts 0 None []))"

text \<open>
  The conditions of the retry policy for attempt \<open>k\<close> of a job: the gate lets the attempt
  pass (or there is no gate); and the attempt fails in a way that the policy retries, an
  invocation error of class budget or network, or a decoding error of class protocol.
\<close>

definition gateOK :: "jobEnv \<Rightarrow> Settings \<Rightarrow> int \<Rightarrow> int \<Rightarrow> bool" where
  "gateOK env st tokens k =
     (\<not> hasGate st \<or> Wait env k \<lparr>Key = GateKey st, Requests = 1, Tokens = tokens\<rparr> = None)"

definition retryable :: "jobEnv \<Rightarrow> Batch \<Rightarrow> int \<Rightarrow> bool" where
  "retryable env b k =
     (case Invoke env k of
        Inl e \<Rightarrow> Classify (Some e) = CodeBudget \<or> Classify (Some e) = CodeNetwork
      | Inr raw \<Rightarrow>
          (case runDecoder (decoder env) k
                  \<lparr>tFileID = bFileID b, tFrom = TargetFrom b, tTo = TargetTo b\<rparr> raw (Records b) of
             Inl e \<Rightarrow> Classify (Some e) = CodeProtocol
           | Inr spans \<Rightarrow> False))"

definition isAttempt :: "wevent \<Rightarrow> bool" where
  "isAttempt ev = (case ev of EvAttempt k \<Rightarrow> True | _ \<Rightarrow> False)"

text \<open>Every attempt after the first comes right after the sleep that follows the attempt
  before it.\<close>

definition sleptBeforeRetry :: "jobEnv \<Rightarrow> wevent list \<Rightarrow> bool" where
  "sleptBeforeRetry env tr =
     (\<forall>i < length tr. \<forall>k. tr ! i = EvAttempt k \<and> 0 < k \<longrightarrow>
        0 < i \<and> tr ! (i - 1) = EvSleep (k - 1) (doneInSleep env (k - 1)))"

text \<open>
  A concrete run, after the repository's \<open>flaky\<close> client: the first invocation is rate
  limited, the second returns text that does not decode, the third succeeds; no gate is
  configured, two retries are allowed, and the context is cancelled during every sleep.
\<close>

definition flakySpan :: SpanResult where
  "flakySpan = \<lparr>sFileID = ''f'', sFrom = 0, sTo = 0, sOutput = ''FLAKY: a'', sMeta = None\<rparr>"

definition flakyEnv :: jobEnv where
  "flakyEnv =
     \<lparr>Build = Inr (TextPrompt ''p''),
      Wait = (\<lambda>k a. None),
      Invoke = (\<lambda>k. if k = 0 then Inl (Sentinel ErrRateLimited)
                     else if k = 1 then Inr \<lparr>Text = ''invalid''\<rparr>
                     else Inr \<lparr>Text = ''ok''\<rparr>),
      decoder = Decode (\<lambda>k tgt raw.
                  if Text raw = ''ok'' then Inr [flakySpan]
                  else Inl (Wrap ''decode json per-record'' (Sentinel ErrResponseInvalid))),
      doneInSleep = (\<lambda>k. Some (Sentinel Canceled))\<rparr>"

definition flakySettings :: Settings where
  "flakySettings =
     \<lparr>Concurrency = 1, setMaxTokens = 0, setBytesPerToken = 4, MaxRetries = 2,
      hasGate = False, GateKey = ''k''\<rparr>"

definition flakyBatch :: Batch where
  "flakyBatch =
     \<lparr>bFileID = ''f'', BatchIndex = 0,
      Records = [\<lparr>rIndex = 0, rFileID = ''f'', rText = ''a'', rMeta = None\<rparr>],
      TargetFrom = 0, TargetTo = 0\<rparr>"

section \<open>Commit gate (internal/pipeline: the result loop of Run)\<close>

text \<open>A row of the sidecar; \<open>enc.Encode\<close> writes it as one JSON line.\<close>

record row =
  file_id :: string
  rowFrom :: int
  rowTo :: int
  rowSrc :: string
  rowDst :: string
  rowMeta :: Meta

text \<open>
  What the gate does to its collaborators, in order, each with the batch index
  \<open>expect\<close> at that moment: a line written to the sidecar pipe, a call of
  \<open>Assembler.Assemble\<close>, and the bytes copied to the primary pipe.
\<close>

datatype gevent =
    SidecarLine int row
  | AssembleCall int "SpanResult list"
  | PrimaryBytes int string

text \<open>
  The collaborators of the gate. They may keep state, so a call is identified by its
  number among the calls of its kind (from 0): the error of \<open>enc.Encode\<close>; the result
  of \<open>Assemble\<close>, which also sees whether the run's context has been cancelled, and gives
  an error or the bytes of the reader it returns; the error of \<open>io.Copy\<close>. \<open>TrimSpace\<close>
  is \<open>strings.TrimSpace\<close>.
\<close>

record gateEnv =
  encodeErr :: "nat \<Rightarrow> error option"
  assembler :: "nat \<Rightarrow> bool \<Rightarrow> FileID \<Rightarrow> SpanResult list \<Rightarrow> error + string"
  copyErr :: "nat \<Rightarrow> error option"
  TrimSpace :: "string \<Rightarrow> string"

text \<open>
  The state of the gate: \<open>expect\<close>, the buffer \<open>buf\<close> (a map from batch index to spans,
  kept as a list of pairs with distinct keys), \<open>firstErr\<close>, whether \<open>cancel()\<close> has been
  called, the progress counters, what has been done so far, the number of calls made to
  each collaborator, and whether the goroutine has panicked on \<open>batches[expect]\<close>.
\<close>

record gate =
  expect :: int
  buf :: "(int \<times> SpanResult list) list"
  firstErr :: "error option"
  cancelled :: bool
  doneCount :: int
  errCount :: int
  events :: "gevent list"
  nEncode :: nat
  nAssemble :: nat
  nCopy :: nat
  panicked :: bool

definition gate0 :: gate where
  "gate0 = \<lparr>expect = 0, buf = [], firstErr = None, cancelled = False, doneCount = 0,
            errCount = 0, events = [], nEncode = 0, nAssemble = 0, nCopy = 0,
            panicked = False\<rparr>"

text \<open>\<open>strings.Builder\<close> filled with the texts of the records from \<open>pos\<close> on whose Index is
  at most \<open>to\<close>, separated by newlines.\<close>

fun joinTexts :: "Record list \<Rightarrow> Index \<Rightarrow> bool \<Rightarrow> string" where
  "joinTexts [] to firstTok = []"
| "joinTexts (r # rs) to firstTok =
     (if rIndex r \<le> to
      then (if \<not> firstTok then [CHR 0x0A] else []) @ rText r @ joinTexts rs to False
      else [])"

definition dstOf :: "gateEnv \<Rightarrow> SpanResult \<Rightarrow> string" where
  "dstOf env sp =
     (case sMeta sp of
        None \<Rightarrow> sOutput sp
      | Some m \<Rightarrow>
          (let v = (case m ''dst_text'' of None \<Rightarrow> [] | Some v \<Rightarrow> v)
           in if TrimSpace env v \<noteq> [] then v else sOutput sp))"

definition rowOf :: "gateEnv \<Rightarrow> FileID \<Rightarrow> Record list \<Rightarrow> SpanResult \<Rightarrow> row" where
  "rowOf env fid recsFromPos sp =
     \<lparr>file_id = fid, rowFrom = sFrom sp, rowTo = sTo sp,
      rowSrc = joinTexts recsFromPos (sTo sp) True, rowDst = dstOf env sp, rowMeta = sMeta sp\<rparr>"

text \<open>
  The loop over the spans of one batch that writes the sidecar rows. \<open>recs\<close> is the
  batch's record slice from \<open>pos\<close> on. A failed \<open>Encode\<close> ends the loop only when it is
  the first error.
\<close>

fun sidecarLoop :: "gateEnv \<Rightarrow> FileID \<Rightarrow> Record list \<Rightarrow> SpanResult list \<Rightarrow> gate \<Rightarrow> gate" where
  "sidecarLoop env fid recs [] g = g"
| "sidecarLoop env fid recs (sp # sps) g =
     (let recs = dropWhile (\<lambda>r. rIndex r < sFrom sp) recs;
          r = rowOf env fid recs sp;
          e = encodeErr env (nEncode g);
          g = g\<lparr>nEncode := Suc (nEncode g),
                events := (if e = None then events g @ [SidecarLine (expect g) r] else events g)\<rparr>
      in if e \<noteq> None \<and> firstErr g = None
         then g\<lparr>firstErr := e, cancelled := True\<rparr>
         else sidecarLoop env fid recs sps g)"

definition sidecarStep :: "gateEnv \<Rightarrow> FileID \<Rightarrow> Record list \<Rightarrow> SpanResult list \<Rightarrow> gate \<Rightarrow> gate" where
  "sidecarStep env fid recs spans g =
     (let recs = (case spans of [] \<Rightarrow> recs
                  | sp0 # rest \<Rightarrow> dropWhile (\<lambda>r. rIndex r < sFrom sp0) recs)
      in sidecarLoop env fid recs spans g)"

text \<open>
  One round of the flush loop for the spans found under \<open>expect\<close>: the sidecar rows, then
  \<open>Assemble\<close>, then the copy into the primary pipe. The result says whether the round
  reaches \<open>delete(buf, expect); expect++\<close> (\<open>True\<close>) or leaves the loop by \<open>break\<close>.
\<close>

definition commitRound ::
  "gateEnv \<Rightarrow> FileID \<Rightarrow> Batch \<Rightarrow> SpanResult list \<Rightarrow> gate \<Rightarrow> gate \<times> bool" where
  "commitRound env fid bt spans g =
     (let g = sidecarStep env fid (Records bt) spans g;
          a = assembler env (nAssemble g) (cancelled g) fid spans;
          g = g\<lparr>nAssemble := Suc (nAssemble g),
                events := events g @ [AssembleCall (expect g) spans]\<rparr>
      in case a of
           Inl aerr \<Rightarrow> (g\<lparr>firstErr := Some aerr, cancelled := True\<rparr>, False)
         | Inr bytes \<Rightarrow>
             (let c = copyErr env (nCopy g);
                  g = g\<lparr>nCopy := Suc (nCopy g),
                        events := (if c = None then events g @ [PrimaryBytes (expect g) bytes]
                                   else events g)\<rparr>
              in if c \<noteq> None \<and> firstErr g = None
                 then (g\<lparr>firstErr := c, cancelled := True\<rparr>, False)
                 else (g, True)))"

lemma length_delete_less:
  "map_of xs k = Some v \<Longrightarrow> length (AList.delete k xs) < length xs"
  by (induction xs) (auto simp: le_imp_less_Suc length_delete_le split: if_splits)

text \<open>The flush loop \<open>for { spans, ok := buf[expect]; if !ok { break } ... }\<close>.\<close>

function flush :: "gateEnv \<Rightarrow> FileID \<Rightarrow> Batch list \<Rightarrow> gate \<Rightarrow> gate" where
  "flush env fid batches g =
     (case map_of (buf g) (expect g) of
        None \<Rightarrow> g
      | Some spans \<Rightarrow>
          (case elem_at batches (expect g) of
             None \<Rightarrow> g\<lparr>panicked := True\<rparr>
           | Some bt \<Rightarrow>
               (case commitRound env fid bt spans g of
                  (g', False) \<Rightarrow> g'
                | (g', True) \<Rightarrow>
                    flush env fid batches
                      (g'\<lparr>buf := AList.delete (expect g) (buf g), expect := expect g + 1\<rparr>))))"
  by pat_completeness auto

termination
  by (relation "measure (\<lambda>(env, fid, batches, g). length (buf g))")
     (auto simp: length_delete_less)

declare flush.simps [simp del]

text \<open>The body of \<open>for r := range outCh\<close> for one result.\<close>

definition gateStep :: "gateEnv \<Rightarrow> FileID \<Rightarrow> Batch list \<Rightarrow> gate \<Rightarrow> res \<Rightarrow> gate" where
  "gateStep env fid batches g r =
     (if panicked g then g
      else
        (let g = g\<lparr>doneCount := doneCount g + 1\<rparr>;
             g = (if resErr r \<noteq> None then g\<lparr>errCount := errCount g + 1\<rparr> else g);
             g = (if resErr r \<noteq> None \<and> firstErr g = None
                  then g\<lparr>firstErr := resErr r, cancelled := True\<rparr> else g)
         in if resErr r = None
            then flush env fid batches (g\<lparr>buf := AList.update (resIdx r) (resSpans r) (buf g)\<rparr>)
            else g))"

definition gateRun :: "gateEnv \<Rightarrow> FileID \<Rightarrow> Batch list \<Rightarrow> res list \<Rightarrow> gate" where
  "gateRun env fid batches rs = foldl (gateStep env fid batches) gate0 rs"

subsection \<open>Runs of the gate in which no collaborator fails\<close>

text \<open>
  Some result carries an error, so that \<open>cancel()\<close> may have been called. \<open>Assemble\<close>
  succeeds on the spans of every successful result under a context that is cancelled
  (\<open>c\<close>) or live. A run without failures: no \<open>Encode\<close> and no \<open>io.Copy\<close> fails, and
  \<open>Assemble\<close> succeeds under every context it can be called with, a cancelled one only
  if some result carries an error. \<open>stepOK\<close> says the same of the spans kept in a map.
\<close>

definition anyFailed :: "res list \<Rightarrow> bool" where
  "anyFailed rs = (\<exists>r \<in> set rs. resErr r \<noteq> None)"

definition assembleOK :: "gateEnv \<Rightarrow> bool \<Rightarrow> FileID \<Rightarrow> res list \<Rightarrow> bool" where
  "assembleOK env c fid rs =
     (\<forall>r \<in> set rs. resErr r = None \<longrightarrow>
        (\<forall>k. \<exists>bytes. assembler env k c fid (resSpans r) = Inr bytes))"

definition noFail :: "gateEnv \<Rightarrow> FileID \<Rightarrow> res list \<Rightarrow> bool" where
  "noFail env fid rs =
     ((\<forall>k. encodeErr env k = None) \<and> (\<forall>k. copyErr env k = None)
      \<and> assembleOK env False fid rs \<and> (anyFailed rs \<longrightarrow> assembleOK env True fid rs))"

definition stepOK ::
  "gateEnv \<Rightarrow> bool \<Rightarrow> FileID \<Rightarrow> (int \<rightharpoonup> SpanResult list) \<Rightarrow> bool" where
  "stepOK env c fid S =
     ((\<forall>k. encodeErr env k = None) \<and> (\<forall>k. copyErr env k = None)
      \<and> (\<forall>k j spans. S j = Some spans \<longrightarrow> (\<exists>bytes. assembler env k c fid spans = Inr bytes)))"

text \<open>
  The rows that the sidecar loop writes for a batch when no \<open>Encode\<close> fails; a gate
  event without the bytes that the assembler returned; what committing batch \<open>k\<close> does,
  in order, when \<open>S k\<close> are its spans; and all of it for the batches below \<open>e\<close>.
\<close>

fun rowsLoop :: "gateEnv \<Rightarrow> FileID \<Rightarrow> Record list \<Rightarrow> SpanResult list \<Rightarrow> row list" where
  "rowsLoop env fid recs [] = []"
| "rowsLoop env fid recs (sp # sps) =
     (let recs = dropWhile (\<lambda>r. rIndex r < sFrom sp) recs
      in rowOf env fid recs sp # rowsLoop env fid recs sps)"

definition rowsOf :: "gateEnv \<Rightarrow> FileID \<Rightarrow> Record list \<Rightarrow> SpanResult list \<Rightarrow> row list" where
  "rowsOf env fid recs spans =
     rowsLoop env fid
       (case spans of [] \<Rightarrow> recs | sp0 # rest \<Rightarrow> dropWhile (\<lambda>r. rIndex r < sFrom sp0) recs)
       spans"

definition eraseBytes :: "gevent \<Rightarrow> gevent" where
  "eraseBytes ev = (case ev of PrimaryBytes k bytes \<Rightarrow> PrimaryBytes k [] | _ \<Rightarrow> ev)"

definition batchEvents ::
  "gateEnv \<Rightarrow> FileID \<Rightarrow> Batch list \<Rightarrow> (int \<rightharpoonup> SpanResult list) \<Rightarrow> int \<Rightarrow> gevent list" where
  "batchEvents env fid batches S k =
     (case S k of
        None \<Rightarrow> []
      | Some spans \<Rightarrow>
          map (SidecarLine k) (rowsOf env fid (Records (batches ! nat k)) spans)
          @ [AssembleCall k spans, PrimaryBytes k []])"

definition committed ::
  "gateEnv \<Rightarrow> FileID \<Rightarrow> Batch list \<Rightarrow> (int \<rightharpoonup> SpanResult list) \<Rightarrow> int \<Rightarrow> gevent list" where
  "committed env fid batches S e = concat (map (batchEvents env fid batches S) [0..e - 1])"

text \<open>
  The successful results among those arrived, by batch index. Results as the workers
  send them: indices of batches of the file (\<open>inRange\<close>), and at most one successful
  result per batch.
\<close>

definition okMap :: "res list \<Rightarrow> (int \<rightharpoonup> SpanResult list)" where
  "okMap rs =
     foldl (\<lambda>S r. if resErr r = None then S(resIdx r \<mapsto> resSpans r) else S) Map.empty rs"

definition inRange :: "Batch list \<Rightarrow> res list \<Rightarrow> bool" where
  "inRange batches rs =
     (\<forall>r \<in> set rs. resErr r = None \<longrightarrow> 0 \<le> resIdx r \<and> resIdx r < int (length batches))"

definition wellFormed :: "Batch list \<Rightarrow> res list \<Rightarrow> bool" where
  "wellFormed batches rs =
     (distinct (map resIdx (filter (\<lambda>r. resErr r = None) rs))
      \<and> (\<forall>r \<in> set rs. resErr r = None \<longrightarrow> 0 \<le> resIdx r \<and> resIdx r < int (length batches)))"

text \<open>
  What holds of the gate between two results of a run without failures, \<open>S\<close> being the
  successful results so far: the batches below \<open>expect\<close> have been committed in order,
  the one at \<open>expect\<close> has not arrived, and the buffer holds the later ones.
\<close>

definition gateInv ::
  "gateEnv \<Rightarrow> FileID \<Rightarrow> Batch list \<Rightarrow> (int \<rightharpoonup> SpanResult list) \<Rightarrow> bool \<Rightarrow> gate \<Rightarrow> bool" where
  "gateInv env fid batches S c g =
     (0 \<le> expect g \<and> \<not> panicked g \<and> cancelled g = c \<and> S (expect g) = None
      \<and> (\<forall>k. map_of (buf g) k = (if expect g \<le> k then S k else None))
      \<and> (\<forall>k. 0 \<le> k \<and> k < expect g \<longrightarrow> S k \<noteq> None)
      \<and> distinct (map fst (buf g))
      \<and> map eraseBytes (events g) = committed env fid batches S (expect g))"

section \<open>Linear assembler (plugins/assembler/linear)\<close>

text \<open>
  The loop of \<open>Assemble\<close> over \<open>spans[1:]\<close>: same file, \<open>From \<le> To\<close>, and each span
  starts after the end of the one before.
\<close>

fun linearCheck :: "FileID \<Rightarrow> Index \<Rightarrow> SpanResult list \<Rightarrow> error option" where
  "linearCheck fileID prevTo [] = None"
| "linearCheck fileID prevTo (s # ss) =
     (if sFileID s \<noteq> fileID \<or> sFrom s > sTo s then Some (Sentinel ErrSeqInvalid)
      else if \<not> (sFrom s > prevTo) then Some (Sentinel ErrSeqInvalid)
      else linearCheck fileID (sTo s) ss)"

text \<open>
  \<open>Assemble(ctx, fileID, spans)\<close>. The result is the error, or the bytes that the
  returned reader (an \<open>io.MultiReader\<close> over the outputs) yields.
\<close>

definition Assemble :: "ctx \<Rightarrow> FileID \<Rightarrow> SpanResult list \<Rightarrow> error + string" where
  "Assemble c fileID spans =
     (case c of
        Some e \<Rightarrow> Inl e
      | None \<Rightarrow>
          (case spans of
             [] \<Rightarrow> Inr []
           | s0 # rest \<Rightarrow>
               if sFileID s0 \<noteq> fileID \<or> sFrom s0 > sTo s0 then Inl (Sentinel ErrSeqInvalid)
               else (case linearCheck fileID (sTo s0) rest of
                       Some e \<Rightarrow> Inl e
                     | None \<Rightarrow> Inr (concat (map sOutput spans)))))"

section \<open>Worker pool (internal/pipeline: Run)\<close>

text \<open>
  The producer sends the batches to \<open>inCh\<close> in order, \<open>nWorkers\<close> goroutines run
  \<open>for j := range inCh\<close>, and each sends the result of its job to \<open>outCh\<close>, which the gate
  reads in the order of the sends. A schedule is the order of two kinds of steps: a free
  worker receives the next job (\<open>Take\<close>), or the worker that holds job \<open>j\<close> sends its
  result (\<open>Finish j\<close>). Jobs are numbered by their position in \<open>batches\<close>.
\<close>

definition nWorkers :: "Settings \<Rightarrow> nat" where
  "nWorkers st = nat (if Concurrency st < 1 then 1 else Concurrency st)"

datatype action = Take | Finish nat

record pool =
  taken :: nat
  running :: "nat list"
  arrived :: "nat list"

definition pool0 :: pool where
  "pool0 = \<lparr>taken = 0, running = [], arrived = []\<rparr>"

fun poolRun :: "nat \<Rightarrow> nat \<Rightarrow> action list \<Rightarrow> pool \<Rightarrow> pool option" where
  "poolRun w n [] p = Some p"
| "poolRun w n (Take # acts) p =
     (if length (running p) < w \<and> taken p < n
      then poolRun w n acts (p\<lparr>taken := Suc (taken p), running := running p @ [taken p]\<rparr>)
      else None)"
| "poolRun w n (Finish j # acts) p =
     (if j \<in> set (running p)
      then poolRun w n acts (p\<lparr>running := remove1 j (running p), arrived := arrived p @ [j]\<rparr>)
      else None)"

text \<open>
  The order in which the results of the jobs reach the gate under a schedule, if the
  schedule is one that \<open>Concurrency\<close> workers can run on these batches.
\<close>

definition arrivals :: "Settings \<Rightarrow> Batch list \<Rightarrow> action list \<Rightarrow> nat list option" where
  "arrivals st batches acts =
     map_option arrived (poolRun (nWorkers st) (length batches) acts pool0)"

section \<open>A file of three batches\<close>

definition exRecord :: "int \<Rightarrow> Record" where
  "exRecord k = \<lparr>rIndex = k, rFileID = ''f'', rText = ''a'', rMeta = None\<rparr>"

definition exBatch :: "int \<Rightarrow> Batch" where
  "exBatch k = \<lparr>bFileID = ''f'', BatchIndex = k, Records = [exRecord k],
                TargetFrom = k, TargetTo = k\<rparr>"

definition exBatches :: "Batch list" where
  "exBatches = [exBatch 0, exBatch 1, exBatch 2]"

definition exSpan :: "int \<Rightarrow> SpanResult" where
  "exSpan k = \<lparr>sFileID = ''f'', sFrom = k, sTo = k, sOutput = ''A'', sMeta = None\<rparr>"

definition exRow :: "int \<Rightarrow> row" where
  "exRow k = \<lparr>file_id = ''f'', rowFrom = k, rowTo = k, rowSrc = ''a'', rowDst = ''A'',
              rowMeta = None\<rparr>"

text \<open>What a worker sends for job \<open>j\<close>: its spans, or the error it ended with.\<close>

definition okRes :: "nat \<Rightarrow> res" where
  "okRes j = \<lparr>resIdx = BatchIndex (exBatches ! j), resSpans = [exSpan (int j)], resErr = None\<rparr>"

definition errRes :: "nat \<Rightarrow> error \<Rightarrow> res" where
  "errRes j e = \<lparr>resIdx = BatchIndex (exBatches ! j), resSpans = [], resErr = Some e\<rparr>"

text \<open>
  The linear assembler, with an encoder and a primary pipe that take everything (a
  writer that drains its reader whatever the context, as the test stub does). The spans
  of the example carry no Meta, so \<open>TrimSpace\<close> is not consulted.
\<close>

definition linearEnv :: gateEnv where
  "linearEnv =
     \<lparr>encodeErr = (\<lambda>k. None),
      assembler = (\<lambda>k c fid spans.
                    Assemble (if c then Some (Sentinel Canceled) else None) fid spans),
      copyErr = (\<lambda>k. None),
      TrimSpace = (\<lambda>s. s)\<rparr>"

definition exSettings :: "int \<Rightarrow> Settings" where
  "exSettings c =
     \<lparr>Concurrency = c, setMaxTokens = 0, setBytesPerToken = 4, MaxRetries = 0,
      hasGate = False, GateKey = ''k''\<rparr>"

section \<open>Rate gate (internal/rate)\<close>

text \<open>
  An instant (\<open>time.Time\<close>) is a number of nanoseconds, and so is a \<open>time.Duration\<close>;
  \<open>Duration.Seconds\<close> divides by \<open>10^9\<close>. The levels and rates of the buckets, \<open>float64\<close>
  in the source, are real numbers here: the arithmetic of the model is exact, and it is
  the arithmetic of the source wherever every value that occurs is a \<open>float64\<close>, as small
  integers are.
\<close>

definition Seconds :: "int \<Rightarrow> real" where
  "Seconds d = real_of_int d / 1000000000"

record Limits =
  RPM :: int
  TPM :: int
  MaxTokensPerReq :: int

record bucket =
  bcap :: int
  level :: real
  rate :: real
  lastRefill :: int

record entry =
  lim :: Limits
  req :: bucket
  tok :: bucket




definition enabled :: "bucket \<Rightarrow> bool" where
  "enabled b = (bcap b > 0)"

definition refill :: "bucket \<Rightarrow> int \<Rightarrow> bucket" where
  "refill b now =
     (if \<not> enabled b then b
      else if now < lastRefill b then b
      else
        (let dt = Seconds (now - lastRefill b) in
         if dt \<le> 0 then b
         else
           (let lv = level b + dt * rate b;
                lv = (if lv > real_of_int (bcap b) then real_of_int (bcap b) else lv)
            in b\<lparr>level := lv, lastRefill := now\<rparr>)))"

definition canTake :: "bucket \<Rightarrow> int \<Rightarrow> bool" where
  "canTake b n =
     (if \<not> enabled b then True
      else if n \<le> 0 then True
      else level b \<ge> real_of_int n)"

definition takeN :: "bucket \<Rightarrow> int \<Rightarrow> bucket" where
  "takeN b n =
     (if \<not> enabled b \<or> n \<le> 0 then b
      else
        (let lv = level b - real_of_int n
         in b\<lparr>level := (if lv < 0 then 0 else lv)\<rparr>))"

definition waitSecFor :: "bucket \<Rightarrow> int \<Rightarrow> real" where
  "waitSecFor b n =
     (if \<not> enabled b \<or> n \<le> 0 then 0
      else
        (let deficit = real_of_int n - level b
         in if deficit \<le> 0 then 0 else deficit / rate b))"

text \<open>
  The checks at the head of \<open>Wait\<close> (and of \<open>Try\<close>, which answers \<open>false\<close> where \<open>Wait\<close>
  returns \<open>ErrInvalidInput\<close>).
\<close>

definition askError :: "entry \<Rightarrow> Ask \<Rightarrow> error option" where
  "askError e a =
     (if Requests a \<le> 0 \<or> Tokens a < 0 then Some (Sentinel ErrInvalidInput)
      else if MaxTokensPerReq (lim e) > 0 \<and> Tokens a > MaxTokensPerReq (lim e)
      then Some (Sentinel ErrInvalidInput)
      else None)"

text \<open>
  What \<open>Wait\<close> and \<open>Try\<close> do while they hold \<open>e.mu\<close>, with the clock reading \<open>now\<close> taken
  just before: refill both buckets, and take from both if both can give. The result says
  whether the ask was admitted.
\<close>

definition attempt :: "entry \<Rightarrow> int \<Rightarrow> Ask \<Rightarrow> entry \<times> bool" where
  "attempt e now a =
     (let e = e\<lparr>req := refill (req e) now\<rparr>;
          e = e\<lparr>tok := refill (tok e) now\<rparr>;
          canReq = canTake (req e) (Requests a);
          canTok = canTake (tok e) (Tokens a)
      in if canReq \<and> canTok
         then (e\<lparr>req := takeN (req e) (Requests a), tok := takeN (tok e) (Tokens a)\<rparr>, True)
         else (e, False))"

definition gateTry :: "entry \<Rightarrow> int \<Rightarrow> Ask \<Rightarrow> entry \<times> bool" where
  "gateTry e now a = (if askError e a \<noteq> None then (e, False) else attempt e now a)"

text \<open>
  The loop of \<open>Wait\<close>. Each round has the state of the context at the head of the round,
  the clock reading, and the state of the context during the sleep that follows a
  refusal. The result is \<open>Some\<close> of what \<open>Wait\<close> returns, or \<open>None\<close> when the rounds
  given are used up and \<open>Wait\<close> is still waiting.
\<close>

fun waitLoop :: "entry \<Rightarrow> Ask \<Rightarrow> (ctx \<times> int \<times> ctx) list \<Rightarrow> entry \<times> error option option" where
  "waitLoop e a [] = (e, None)"
| "waitLoop e a ((c, now, cs) # rounds) =
     (case c of
        Some err \<Rightarrow> (e, Some (Some err))
      | None \<Rightarrow>
          (case attempt e now a of
             (e', True) \<Rightarrow> (e', Some None)
           | (e', False) \<Rightarrow>
               (case cs of
                  Some err \<Rightarrow> (e', Some (Some err))
                | None \<Rightarrow> waitLoop e' a rounds)))"


text \<open>
  Goroutines that call the gate on one key take turns under \<open>e.mu\<close>. A run of the entry
  is the list of these turns, each with its clock reading and its ask; the result is
  the entry after them and the turns that admitted their ask.
\<close>

fun turns :: "entry \<Rightarrow> (int \<times> Ask) list \<Rightarrow> entry \<times> (int \<times> Ask) list" where
  "turns e [] = (e, [])"
| "turns e ((now, a) # ts) =
     (case attempt e now a of
        (e', ok) \<Rightarrow>
          (case turns e' ts of
             (e'', adm) \<Rightarrow> (e'', if ok then (now, a) # adm else adm)))"













section \<open>Properties of the response validator\<close>







section \<open>Properties of the sliding-window batcher\<close>






lemma length_psums: "length (psums p cs) = Suc (length cs)"
  by (induction cs arbitrary: p) auto

lemma psums_nth: "i \<le> length cs \<Longrightarrow> psums p cs ! i = p + sum_list (take i cs)"
proof (induction cs arbitrary: p i)
  case Nil
  then show ?case by simp
next
  case (Cons c cs)
  then show ?case by (cases i) auto
qed

lemma prefLoop_psums:
  "prefLoop ctx b (xs @ [p]) rs = Inr out \<Longrightarrow>
     out = xs @ psums p (map (\<lambda>r. estimateTokens b (rText r)) rs)"
proof (induction rs arbitrary: xs p)
  case Nil
  then show ?case by simp
next
  case (Cons r rs)
  from Cons.prems have c: "ctx = None" by (auto split: option.splits)
  with Cons.prems
  have "prefLoop ctx b ((xs @ [p]) @ [p + estimateTokens b (rText r)]) rs = Inr out" by simp
  from Cons.IH [OF this] show ?case by simp
qed


lemma elem_at_psums:
  "0 \<le> i \<Longrightarrow> i \<le> int (length cs) \<Longrightarrow>
     elem_at (psums 0 cs) i = Some (sum_list (take (nat i) cs))"
  by (simp add: elem_at_def length_psums psums_nth)

lemma sum_take_split:
  "a \<le> m \<Longrightarrow> sum_list (take m cs) = sum_list (take a cs) + sum_list (take (m - a) (drop a cs))"
  for cs :: "int list"
  using take_add [of a "m - a" cs] by simp

lemma sum_pref_psums:
  assumes "0 \<le> a" "b < int (length cs)"
  shows "sum_pref (psums 0 cs) a b = Some (rangeCost cs a b)"
proof (cases "a > b")
  case True
  then show ?thesis by (simp add: sum_pref_def rangeCost_def)
next
  case False
  with assms have 1: "elem_at (psums 0 cs) (b + 1) = Some (sum_list (take (nat (b + 1)) cs))"
    and 2: "elem_at (psums 0 cs) a = Some (sum_list (take (nat a) cs))"
    by (simp_all add: elem_at_psums)
  have "nat a \<le> nat (b + 1)" using False assms by simp
  from sum_take_split [OF this, of cs] False assms
  have "sum_list (take (nat (b + 1)) cs) - sum_list (take (nat a) cs) = rangeCost cs a b"
    by (simp add: rangeCost_def nat_diff_distrib)
  with 1 2 False assms show ?thesis
    by (simp add: sum_pref_def Let_def length_psums)
qed

lemma rangeCost_append:
  assumes "0 \<le> a" "a \<le> m" "m \<le> c + 1"
  shows "rangeCost cs a (m - 1) + rangeCost cs m c = rangeCost cs a c"
proof -
  have e: "nat (c + 1 - a) = nat (m - a) + nat (c + 1 - m)" using assms by simp
  have d: "drop (nat (m - a)) (drop (nat a) cs) = drop (nat m) cs"
    using assms by (simp add: nat_diff_distrib)
  show ?thesis
    unfolding rangeCost_def e take_add d by simp
qed



lemma need_value:
  assumes "0 \<le> ctxRadius b" "0 \<le> l" "l \<le> r" "r \<le> n" "n = int (length cs)"
  shows "need b (psums 0 cs) n l r =
     Some (rangeCost cs (if l - ctxRadius b < 0 then 0 else l - ctxRadius b)
                        (if r + ctxRadius b - 1 \<ge> n then n - 1 else r + ctxRadius b - 1))"
proof -
  let ?L1 = "if l - ctxRadius b < 0 then 0 else l - ctxRadius b"
  let ?R2 = "if r + ctxRadius b - 1 \<ge> n then n - 1 else r + ctxRadius b - 1"
  have L: "0 \<le> ?L1" "?L1 \<le> l" using assms by auto
  have R: "r \<le> ?R2 + 1" "?R2 < n" using assms by auto
  have 1: "sum_pref (psums 0 cs) ?L1 (l - 1) = Some (rangeCost cs ?L1 (l - 1))"
    using L assms by (intro sum_pref_psums) auto
  have 2: "sum_pref (psums 0 cs) l (r - 1) = Some (rangeCost cs l (r - 1))"
    using assms by (intro sum_pref_psums) auto
  have 3: "sum_pref (psums 0 cs) r ?R2 = Some (rangeCost cs r ?R2)"
    using R assms by (intro sum_pref_psums) auto
  have "rangeCost cs ?L1 (l - 1) + rangeCost cs l (r - 1) = rangeCost cs ?L1 (r - 1)"
    using L assms by (intro rangeCost_append) auto
  moreover have "rangeCost cs ?L1 (r - 1) + rangeCost cs r ?R2 = rangeCost cs ?L1 ?R2"
    using L R assms by (intro rangeCost_append) auto
  ultimately show ?thesis
    using 1 2 3 by (simp add: need_def Let_def)
qed


lemma slice_cost:
  "slice records lo hi = Some w \<Longrightarrow>
     (\<Sum>r\<leftarrow>w. estimateTokens b (rText r))
       = rangeCost (map (\<lambda>r. estimateTokens b (rText r)) records) lo (hi - 1)"
  by (auto simp: slice_def rangeCost_def take_map drop_map split: if_splits)


lemma checkRecords_None:
  "checkRecords ctx fid prev rs = None \<Longrightarrow> i < length rs \<Longrightarrow>
     rIndex (rs ! i) = rIndex prev + 1 + int i \<and> rFileID (rs ! i) = fid"
proof (induction rs arbitrary: prev i)
  case Nil
  then show ?case by simp
next
  case (Cons r rs)
  from Cons.prems(1) have c: "ctx = None" and f: "rFileID r = fid"
    and ix: "rIndex r = rIndex prev + 1" and rest: "checkRecords ctx fid r rs = None"
    by (auto split: option.splits if_splits)
  show ?case
  proof (cases i)
    case 0
    with f ix show ?thesis by simp
  next
    case (Suc j)
    with Cons.prems(2) have "j < length rs" by simp
    from Cons.IH [OF rest this] ix Suc show ?thesis by simp
  qed
qed




lemma upto_append: "i \<le> j \<Longrightarrow> j \<le> k + 1 \<Longrightarrow> [i..j - 1] @ [j..k] = [i..k]"
proof (cases "j \<le> k")
  case True
  assume "i \<le> j"
  from upto_split1 [OF this True] show ?thesis by simp
next
  case False
  assume "j \<le> k + 1"
  with False have "j = k + 1" by simp
  then show ?thesis by simp
qed

lemma expand_fits:
  "expand b ctx pref n budget l r bestR = Inr x \<Longrightarrow> x \<noteq> bestR \<Longrightarrow>
     \<exists>nd. need b pref n l x = Some nd \<and> nd \<le> budget"
proof (induction b ctx pref n budget l r bestR rule: expand.induct)
  case (1 b ctx pref n budget l r bestR)
  show ?case
  proof (cases "r \<le> n")
    case False
    with "1.prems" show ?thesis by (simp add: expand.simps)
  next
    case True
    from "1.prems" True obtain nd where c: "ctx = None" and nd: "need b pref n l r = Some nd"
      by (subst (asm) expand.simps) (auto split: option.splits)
    show ?thesis
    proof (cases "nd \<le> budget")
      case False
      with "1.prems" True c nd show ?thesis
        by (subst (asm) expand.simps) simp
    next
      case le: True
      with "1.prems" True c nd
      have e: "expand b ctx pref n budget l (r + 1) (if r > l then r else bestR) = Inr x"
        by (subst (asm) expand.simps) simp
      show ?thesis
      proof (cases "x = (if r > l then r else bestR)")
        case True
        with "1.prems"(2) have "x = r" by (auto split: if_splits)
        with nd le show ?thesis by simp
      next
        case False
        from "1.IH" [OF True c nd le e False] show ?thesis .
      qed
    qed
  qed
qed



lemma makeLoop_partition:
  "makeLoop b ctx records pref n budget fid l batchIdx batches = Inr out \<Longrightarrow>
   0 \<le> l \<Longrightarrow> l \<le> n \<Longrightarrow> n = int (length records) \<Longrightarrow>
   (\<forall>i < length records. rIndex (records ! i) = int i) \<Longrightarrow>
   \<exists>new. out = batches @ new
     \<and> concat (map targets new) = [l..n - 1]
     \<and> map BatchIndex new = [batchIdx..batchIdx + int (length new) - 1]
     \<and> (\<forall>bt \<in> set new. TargetFrom bt \<le> TargetTo bt)"
proof (induction b ctx records pref n budget fid l batchIdx batches rule: makeLoop.induct)
  case (1 b ctx records pref n budget fid l batchIdx batches)
  show ?case
  proof (cases "l < n")
    case False
    with "1.prems" have "out = batches" "l = n"
      by (simp_all add: makeLoop.simps)
    then show ?thesis by simp
  next
    case True
    from "1.prems"(1) True obtain bestR recSlice rl rb where
      c: "ctx = None" and ex: "expand b ctx pref n budget l l l = Inr bestR" and ne: "bestR \<noteq> l"
      and sl: "slice records (if l - ctxRadius b < 0 then 0 else l - ctxRadius b)
                 ((if bestR + ctxRadius b - 1 \<ge> n then n - 1 else bestR + ctxRadius b - 1) + 1) = Some recSlice"
      and rl: "elem_at records l = Some rl" and rb: "elem_at records (bestR - 1) = Some rb"
      and rec: "makeLoop b ctx records pref n budget fid bestR (batchIdx + 1)
                  (batches @ [\<lparr>bFileID = fid, BatchIndex = batchIdx, Records = recSlice,
                                TargetFrom = rIndex rl, TargetTo = rIndex rb\<rparr>]) = Inr out"
      by (subst (asm) makeLoop.simps)
         (auto simp: Let_def split: option.splits sum.splits if_splits)
    from expand_result [OF ex] ne have rng: "l < bestR" "bestR \<le> n" by auto
    let ?bt = "\<lparr>bFileID = fid, BatchIndex = batchIdx, Records = recSlice,
                                TargetFrom = rIndex rl, TargetTo = rIndex rb\<rparr>"
    let ?L1 = "let L1 = l - ctxRadius b in if L1 < 0 then 0 else L1"
    from rl "1.prems" have tf: "rIndex rl = l"
      by (auto simp: elem_at_def split: if_splits)
    from rb "1.prems" rng have tt: "rIndex rb = bestR - 1"
      by (auto simp: elem_at_def split: if_splits)
    have "0 \<le> bestR" using rng "1.prems" by simp
    from "1.IH" [OF True c ex ne refl refl refl refl refl sl refl rl rb rec this rng(2) "1.prems"(4,5)]
    obtain new where n1: "out = (batches @ [?bt]) @ new"
      and n2: "concat (map targets new) = [bestR..n - 1]"
      and n3: "map BatchIndex new = [batchIdx + 1..batchIdx + 1 + int (length new) - 1]"
      and n4: "\<forall>bt \<in> set new. TargetFrom bt \<le> TargetTo bt"
      by (auto simp: Let_def)
    have a: "concat (map targets (?bt # new)) = [l..n - 1]"
      using n2 tf tt rng upto_append [of l bestR "n - 1"] by (simp add: targets_def)
    have b: "map BatchIndex (?bt # new) = [batchIdx..batchIdx + int (length (?bt # new)) - 1]"
      using n3 by (subst upto.simps) (simp add: algebra_simps)
    have d: "\<forall>bt \<in> set (?bt # new). TargetFrom bt \<le> TargetTo bt"
      using n4 tf tt rng by simp
    from n1 have "out = batches @ (?bt # new)" by simp
    with a b d show ?thesis by blast
  qed
qed

lemma makeLoop_budget:
  "makeLoop b ctx records pref n budget fid l batchIdx batches = Inr out \<Longrightarrow>
   0 \<le> l \<Longrightarrow> l \<le> n \<Longrightarrow> n = int (length records) \<Longrightarrow> 0 \<le> ctxRadius b \<Longrightarrow>
   pref = psums 0 (map (\<lambda>r. estimateTokens b (rText r)) records) \<Longrightarrow>
   (\<forall>bt \<in> set batches. windowCost b bt \<le> budget) \<Longrightarrow>
   (\<forall>bt \<in> set out. windowCost b bt \<le> budget)"
proof (induction b ctx records pref n budget fid l batchIdx batches rule: makeLoop.induct)
  case (1 b ctx records pref n budget fid l batchIdx batches)
  show ?case
  proof (cases "l < n")
    case False
    with "1.prems" show ?thesis by (simp add: makeLoop.simps)
  next
    case True
    let ?L1 = "if l - ctxRadius b < 0 then 0 else l - ctxRadius b"
    from "1.prems"(1) True obtain bestR recSlice rl rb where
      c: "ctx = None" and ex: "expand b ctx pref n budget l l l = Inr bestR" and ne: "bestR \<noteq> l"
      and sl: "slice records ?L1
                 ((if bestR + ctxRadius b - 1 \<ge> n then n - 1 else bestR + ctxRadius b - 1) + 1) = Some recSlice"
      and rl: "elem_at records l = Some rl" and rb: "elem_at records (bestR - 1) = Some rb"
      and rec: "makeLoop b ctx records pref n budget fid bestR (batchIdx + 1)
                  (batches @ [\<lparr>bFileID = fid, BatchIndex = batchIdx, Records = recSlice,
                                TargetFrom = rIndex rl, TargetTo = rIndex rb\<rparr>]) = Inr out"
      by (subst (asm) makeLoop.simps)
         (auto simp: Let_def split: option.splits sum.splits if_splits)
    from expand_result [OF ex] ne have rng: "l < bestR" "bestR \<le> n" by auto
    let ?bt = "\<lparr>bFileID = fid, BatchIndex = batchIdx, Records = recSlice,
                                TargetFrom = rIndex rl, TargetTo = rIndex rb\<rparr>"
    let ?cs = "map (\<lambda>r. estimateTokens b (rText r)) records"
    from expand_fits [OF ex ne] obtain nd where nd: "need b pref n l bestR = Some nd" "nd \<le> budget"
      by blast
    have "need b (psums 0 ?cs) n l bestR =
       Some (rangeCost ?cs ?L1 (if bestR + ctxRadius b - 1 \<ge> n then n - 1 else bestR + ctxRadius b - 1))"
      using "1.prems" rng by (intro need_value) auto
    with nd "1.prems"(6) slice_cost [OF sl, of b] have "windowCost b ?bt \<le> budget"
      by (simp add: windowCost_def)
    with "1.prems"(7) have inv: "\<forall>bt \<in> set (batches @ [?bt]). windowCost b bt \<le> budget"
      by simp
    have "0 \<le> bestR" using rng "1.prems" by simp
    from "1.IH" [OF True c ex ne refl refl refl refl refl sl refl rl rb rec this rng(2)
        "1.prems"(4,5,6) inv]
    show ?thesis .
  qed
qed

lemma makeLoop_window:
  "makeLoop b ctx records pref n budget fid l batchIdx batches = Inr out \<Longrightarrow>
   0 \<le> l \<Longrightarrow> l \<le> n \<Longrightarrow> n = int (length records) \<Longrightarrow>
   (\<forall>i < length records. rIndex (records ! i) = int i) \<Longrightarrow>
   (\<forall>bt \<in> set batches. Records bt = window records (ctxRadius b) (TargetFrom bt) (TargetTo bt)) \<Longrightarrow>
   (\<forall>bt \<in> set out. Records bt = window records (ctxRadius b) (TargetFrom bt) (TargetTo bt))"
proof (induction b ctx records pref n budget fid l batchIdx batches rule: makeLoop.induct)
  case (1 b ctx records pref n budget fid l batchIdx batches)
  show ?case
  proof (cases "l < n")
    case False
    with "1.prems" show ?thesis by (simp add: makeLoop.simps)
  next
    case True
    let ?L1 = "if l - ctxRadius b < 0 then 0 else l - ctxRadius b"
    from "1.prems"(1) True obtain bestR recSlice rl rb where
      c: "ctx = None" and ex: "expand b ctx pref n budget l l l = Inr bestR" and ne: "bestR \<noteq> l"
      and sl: "slice records ?L1
                 ((if bestR + ctxRadius b - 1 \<ge> n then n - 1 else bestR + ctxRadius b - 1) + 1) = Some recSlice"
      and rl: "elem_at records l = Some rl" and rb: "elem_at records (bestR - 1) = Some rb"
      and rec: "makeLoop b ctx records pref n budget fid bestR (batchIdx + 1)
                  (batches @ [\<lparr>bFileID = fid, BatchIndex = batchIdx, Records = recSlice,
                                TargetFrom = rIndex rl, TargetTo = rIndex rb\<rparr>]) = Inr out"
      by (subst (asm) makeLoop.simps)
         (auto simp: Let_def split: option.splits sum.splits if_splits)
    from expand_result [OF ex] ne have rng: "l < bestR" "bestR \<le> n" by auto
    let ?bt = "\<lparr>bFileID = fid, BatchIndex = batchIdx, Records = recSlice,
                                TargetFrom = rIndex rl, TargetTo = rIndex rb\<rparr>"
    from rl "1.prems" have tf: "rIndex rl = l"
      by (auto simp: elem_at_def split: if_splits)
    from rb "1.prems" rng have tt: "rIndex rb = bestR - 1"
      by (auto simp: elem_at_def split: if_splits)
    have "Records ?bt = window records (ctxRadius b) (TargetFrom ?bt) (TargetTo ?bt)"
      using sl tf tt "1.prems"(4)
      by (auto simp: slice_def window_def Let_def max_def min_def split: if_splits)
    with "1.prems"(6)
    have inv: "\<forall>bt \<in> set (batches @ [?bt]).
        Records bt = window records (ctxRadius b) (TargetFrom bt) (TargetTo bt)"
      by simp
    have "0 \<le> bestR" using rng "1.prems" by simp
    from "1.IH" [OF True c ex ne refl refl refl refl refl sl refl rl rb rec this rng(2)
        "1.prems"(4,5) inv]
    show ?thesis .
  qed
qed



lemma Make_Inr_cases:
  assumes "Make b ctx records limit = Inr batches" "records \<noteq> []"
  obtains pref where "0 < MaxTokens limit"
    "\<forall>i < length records. rIndex (records ! i) = int i \<and> rFileID (records ! i) = rFileID (hd records)"
    "pref = psums 0 (map (\<lambda>r. estimateTokens b (rText r)) records)"
    "makeLoop b ctx records pref (int (length records)) (MaxTokens limit) (rFileID (hd records)) 0 0 [] = Inr batches"
proof -
  from assms(2) obtain r0 rest where rs: "records = r0 # rest" by (cases records) auto
  from assms(1) rs obtain pref where mt: "0 < MaxTokens limit" and i0: "rIndex r0 = 0"
    and ck: "checkRecords ctx (rFileID r0) r0 rest = None"
    and pl: "prefLoop ctx b [0] records = Inr pref"
    and ml: "makeLoop b ctx records pref (int (length records)) (MaxTokens limit) (rFileID r0) 0 0 [] = Inr batches"
    by (auto simp: Make_def Let_def split: if_splits option.splits sum.splits)
  have v: "\<forall>i < length records. rIndex (records ! i) = int i \<and> rFileID (records ! i) = rFileID (hd records)"
  proof (intro allI impI)
    fix i assume "i < length records"
    show "rIndex (records ! i) = int i \<and> rFileID (records ! i) = rFileID (hd records)"
    proof (cases i)
      case 0
      with rs i0 show ?thesis by simp
    next
      case (Suc j)
      with \<open>i < length records\<close> rs have "j < length rest" by simp
      from checkRecords_None [OF ck this] i0 rs Suc show ?thesis by simp
    qed
  qed
  from prefLoop_psums [of ctx b "[]" 0 records pref] pl
  have "pref = psums 0 (map (\<lambda>r. estimateTokens b (rText r)) records)" by simp
  with mt v ml rs that show ?thesis by simp
qed

lemma Make_Inr_props:
  assumes "Make b ctx records limit = Inr batches"
  shows "concat (map targets batches) = [0..int (length records) - 1]"
    and "map BatchIndex batches = [0..int (length batches) - 1]"
    and "\<forall>bt \<in> set batches. TargetFrom bt \<le> TargetTo bt"
    and "\<forall>bt \<in> set batches. Records bt = window records (ctxRadius b) (TargetFrom bt) (TargetTo bt)"
    and "0 \<le> ctxRadius b \<Longrightarrow> \<forall>bt \<in> set batches. windowCost b bt \<le> MaxTokens limit"
proof -
  have "concat (map targets batches) = [0..int (length records) - 1]
    \<and> map BatchIndex batches = [0..int (length batches) - 1]
    \<and> (\<forall>bt \<in> set batches. TargetFrom bt \<le> TargetTo bt)
    \<and> (\<forall>bt \<in> set batches. Records bt = window records (ctxRadius b) (TargetFrom bt) (TargetTo bt))
    \<and> (0 \<le> ctxRadius b \<longrightarrow> (\<forall>bt \<in> set batches. windowCost b bt \<le> MaxTokens limit))"
  proof (cases "records = []")
    case True
    with assms have "batches = []"
      by (auto simp: Make_def Let_def split: if_splits)
    with True show ?thesis by simp
  next
    case False
    from Make_Inr_cases [OF assms False] obtain pref where
      v: "\<forall>i < length records. rIndex (records ! i) = int i \<and> rFileID (records ! i) = rFileID (hd records)"
      and pf: "pref = psums 0 (map (\<lambda>r. estimateTokens b (rText r)) records)"
      and ml: "makeLoop b ctx records pref (int (length records)) (MaxTokens limit)
               (rFileID (hd records)) 0 0 [] = Inr batches"
      by blast
    from makeLoop_partition [OF ml] v
    have 1: "concat (map targets batches) = [0..int (length records) - 1]
      \<and> map BatchIndex batches = [0..int (length batches) - 1]
      \<and> (\<forall>bt \<in> set batches. TargetFrom bt \<le> TargetTo bt)" by auto
    from makeLoop_window [OF ml] v
    have 2: "\<forall>bt \<in> set batches. Records bt = window records (ctxRadius b) (TargetFrom bt) (TargetTo bt)"
      by auto
    have 3: "0 \<le> ctxRadius b \<longrightarrow> (\<forall>bt \<in> set batches. windowCost b bt \<le> MaxTokens limit)"
    proof
      assume "0 \<le> ctxRadius b"
      from makeLoop_budget [OF ml _ _ refl this pf]
      show "\<forall>bt \<in> set batches. windowCost b bt \<le> MaxTokens limit" by auto
    qed
    from 1 2 3 show ?thesis by blast
  qed
  then show "concat (map targets batches) = [0..int (length records) - 1]"
    and "map BatchIndex batches = [0..int (length batches) - 1]"
    and "\<forall>bt \<in> set batches. TargetFrom bt \<le> TargetTo bt"
    and "\<forall>bt \<in> set batches. Records bt = window records (ctxRadius b) (TargetFrom bt) (TargetTo bt)"
    and "0 \<le> ctxRadius b \<Longrightarrow> \<forall>bt \<in> set batches. windowCost b bt \<le> MaxTokens limit"
    by simp_all
qed







lemmas Make_eval = Make_def New_def makeLoop.simps expand.simps need_def sum_pref_def
  elem_at_def slice_def estimateTokens_def quot_def Let_def

lemma Make_five:
  "Make (New (Some \<lparr>ContextRadius = 1, BytesPerToken = 1, ExtraBytesPerRecord = 0\<rparr>)) None
       [\<lparr>rIndex = 0, rFileID = ''f'', rText = ''a'', rMeta = None\<rparr>,
        \<lparr>rIndex = 1, rFileID = ''f'', rText = ''b'', rMeta = None\<rparr>,
        \<lparr>rIndex = 2, rFileID = ''f'', rText = ''c'', rMeta = None\<rparr>,
        \<lparr>rIndex = 3, rFileID = ''f'', rText = ''d'', rMeta = None\<rparr>,
        \<lparr>rIndex = 4, rFileID = ''f'', rText = ''e'', rMeta = None\<rparr>] \<lparr>MaxTokens = 3\<rparr>
     = Inr [\<lparr>bFileID = ''f'', BatchIndex = 0,
         Records =
           [\<lparr>rIndex = 0, rFileID = ''f'', rText = ''a'', rMeta = None\<rparr>,
            \<lparr>rIndex = 1, rFileID = ''f'', rText = ''b'', rMeta = None\<rparr>,
            \<lparr>rIndex = 2, rFileID = ''f'', rText = ''c'', rMeta = None\<rparr>],
         TargetFrom = 0, TargetTo = 1\<rparr>,
      \<lparr>bFileID = ''f'', BatchIndex = 1,
         Records =
           [\<lparr>rIndex = 1, rFileID = ''f'', rText = ''b'', rMeta = None\<rparr>,
            \<lparr>rIndex = 2, rFileID = ''f'', rText = ''c'', rMeta = None\<rparr>,
            \<lparr>rIndex = 3, rFileID = ''f'', rText = ''d'', rMeta = None\<rparr>],
         TargetFrom = 2, TargetTo = 2\<rparr>,
      \<lparr>bFileID = ''f'', BatchIndex = 2,
         Records =
           [\<lparr>rIndex = 2, rFileID = ''f'', rText = ''c'', rMeta = None\<rparr>,
            \<lparr>rIndex = 3, rFileID = ''f'', rText = ''d'', rMeta = None\<rparr>,
            \<lparr>rIndex = 4, rFileID = ''f'', rText = ''e'', rMeta = None\<rparr>],
         TargetFrom = 3, TargetTo = 4\<rparr>]"
  by (simp add: Make_eval)

text \<open>
  C1. Whenever \<open>Make\<close> returns a batch list without error, the target ranges
  \<open>[TargetFrom, TargetTo]\<close> of the batches, taken in emission order, enumerate
  \<open>0, 1, ..., N-1\<close> exactly once each (they partition \<open>[0, N-1]\<close> with no overlap and no
  gap), no range is empty, and the \<open>BatchIndex\<close> values are \<open>0, 1, 2, ...\<close> in emission
  order. (A successful return already implies that \<open>MaxTokens > 0\<close> and, for non-empty
  input, that the records share one FileID and are numbered from \<open>0\<close> contiguously.)
\<close>

theorem Make_partition:
  assumes "Make b ctx records limit = Inr batches"
  shows "concat (map targets batches) = [0..int (length records) - 1]
     \<and> map BatchIndex batches = [0..int (length batches) - 1]
     \<and> (\<forall>bt \<in> set batches. TargetFrom bt \<le> TargetTo bt)"
  using Make_Inr_props(1,2,3) [OF assms] by simp

theorem Make_partition_witness:
  "concat (map targets
      [\<lparr>bFileID = ''f'', BatchIndex = 0,
         Records =
           [\<lparr>rIndex = 0, rFileID = ''f'', rText = ''a'', rMeta = None\<rparr>,
            \<lparr>rIndex = 1, rFileID = ''f'', rText = ''b'', rMeta = None\<rparr>,
            \<lparr>rIndex = 2, rFileID = ''f'', rText = ''c'', rMeta = None\<rparr>],
         TargetFrom = 0, TargetTo = 1\<rparr>,
      \<lparr>bFileID = ''f'', BatchIndex = 1,
         Records =
           [\<lparr>rIndex = 1, rFileID = ''f'', rText = ''b'', rMeta = None\<rparr>,
            \<lparr>rIndex = 2, rFileID = ''f'', rText = ''c'', rMeta = None\<rparr>,
            \<lparr>rIndex = 3, rFileID = ''f'', rText = ''d'', rMeta = None\<rparr>],
         TargetFrom = 2, TargetTo = 2\<rparr>,
      \<lparr>bFileID = ''f'', BatchIndex = 2,
         Records =
           [\<lparr>rIndex = 2, rFileID = ''f'', rText = ''c'', rMeta = None\<rparr>,
            \<lparr>rIndex = 3, rFileID = ''f'', rText = ''d'', rMeta = None\<rparr>,
            \<lparr>rIndex = 4, rFileID = ''f'', rText = ''e'', rMeta = None\<rparr>],
         TargetFrom = 3, TargetTo = 4\<rparr>]) = [0, 1, 2, 3, 4]"
proof -
  have n: "[0..int (length
       [\<lparr>rIndex = 0, rFileID = ''f'', rText = ''a'', rMeta = None\<rparr>,
        \<lparr>rIndex = 1, rFileID = ''f'', rText = ''b'', rMeta = None\<rparr>,
        \<lparr>rIndex = 2, rFileID = ''f'', rText = ''c'', rMeta = None\<rparr>,
        \<lparr>rIndex = 3, rFileID = ''f'', rText = ''d'', rMeta = None\<rparr>,
        \<lparr>rIndex = 4, rFileID = ''f'', rText = ''e'', rMeta = None\<rparr>]) - 1] = [0, 1, 2, 3, 4]"
    by (simp add: upto_rec1)
  from Make_partition [OF Make_five, THEN conjunct1] show ?thesis
    unfolding n .
qed






section \<open>Properties of the failure classification\<close>










section \<open>Properties of the SRT splitter's extension filter\<close>

lemma allowLoop_set: "allowLoop lower a es = a \<union> {lower e | e. e \<in> set es \<and> e \<noteq> []}"
  by (induction es arbitrary: a) auto

lemma allow_New_srt: "allow (New_srt lower opts) = allowSet lower opts"
  by (auto simp: New_srt_def allowSet_def allowLoop_set split: option.splits list.splits)

lemma emptyOutputs_ok:
  "assemble fid [] = Inr [] \<Longrightarrow> writeErr w fid = None \<Longrightarrow> writeErr w (fid @ ''.jsonl'') = None \<Longrightarrow>
     emptyOutputs assemble w fid
       = (None, w\<lparr>artifacts := artifacts w @ [(fid, []), (fid @ ''.jsonl'', [])]\<rparr>)"
  by (simp add: emptyOutputs_def Write_def)

text \<open>
  C10. The allow set that \<open>New\<close> builds is \<open>{".srt"}\<close> unless the options list
  extensions (then it holds their lower-cased non-empty entries) or list none explicitly
  (then there is no restriction). For every file whose lower-cased \<open>path.Ext\<close> is not in
  the allow set, \<open>Split\<close> returns no records and no error and leaves the input stream as
  it was; the pipeline's callback then takes the empty-records branch, which writes an
  empty primary artifact and an empty \<open>.jsonl\<close> sidecar and returns no error when the
  assembler and the writer succeed. The block parser (the rest of \<open>Split\<close>),
  \<open>perFile\<close> and \<open>strings.ToLower\<close> are parameters.
\<close>

theorem Split_filtered:
  "allow (New_srt lower opts) = allowSet lower opts
   \<and> (\<forall>a. allowSet lower opts = Some a \<and> lower (pathExt fileID) \<notin> a \<longrightarrow>
        Split lower parseBlocks (New_srt lower opts) ctx fileID r = (Inr [], r)
        \<and> onFile (Split lower parseBlocks (New_srt lower opts)) assemble perFile ctx fileID r w
            = (emptyOutputs assemble w fileID, r)
        \<and> (assemble fileID [] = Inr [] \<and> writeErr w fileID = None
              \<and> writeErr w (fileID @ ''.jsonl'') = None \<longrightarrow>
            onFile (Split lower parseBlocks (New_srt lower opts)) assemble perFile ctx fileID r w
              = ((None, w\<lparr>artifacts := artifacts w @ [(fileID, []), (fileID @ ''.jsonl'', [])]\<rparr>), r)))"
  by (simp add: allow_New_srt Split_def onFile_def emptyOutputs_ok)

theorem Split_filtered_witness:
  "Split toLowerASCII (\<lambda>s ctx fid rd. (Inl (ErrorString ''srt format error''), rd\<lparr>reads := Suc (reads rd)\<rparr>))
       (New_srt toLowerASCII None) None ''notes/readme.TXT'' \<lparr>pending = ''hello'', reads = 0\<rparr>
     = (Inr [], \<lparr>pending = ''hello'', reads = 0\<rparr>)
   \<and> allow (New_srt toLowerASCII (Some \<lparr>MaxFragmentBytes = 0, AllowExts = Some []\<rparr>)) = None"
proof -
  have a: "allowSet toLowerASCII None = Some {''.srt''}"
    by (simp add: allowSet_def)
  have e: "toLowerASCII (pathExt ''notes/readme.TXT'') \<notin> {''.srt''}"
    by (simp add: pathExt_def toLowerASCII_def)
  have 1: "Split toLowerASCII (\<lambda>s ctx fid rd. (Inl (ErrorString ''srt format error''), rd\<lparr>reads := Suc (reads rd)\<rparr>))
       (New_srt toLowerASCII None) None ''notes/readme.TXT'' \<lparr>pending = ''hello'', reads = 0\<rparr>
     = (Inr [], \<lparr>pending = ''hello'', reads = 0\<rparr>)"
    using Split_filtered [of toLowerASCII None "''notes/readme.TXT''"
        "\<lambda>s ctx fid rd. (Inl (ErrorString ''srt format error''), rd\<lparr>reads := Suc (reads rd)\<rparr>)"
        None "\<lparr>pending = ''hello'', reads = 0\<rparr>"] a e
    by blast
  have 2: "allow (New_srt toLowerASCII (Some \<lparr>MaxFragmentBytes = 0, AllowExts = Some []\<rparr>)) = None"
    using Split_filtered [of toLowerASCII "Some \<lparr>MaxFragmentBytes = 0, AllowExts = Some []\<rparr>"]
    by (simp add: allowSet_def)
  from 1 2 show ?thesis by simp
qed

section \<open>Properties of the worker's retry loop\<close>

lemma shouldRetryInvoke_iff:
  "shouldRetryInvoke (Some e) \<longleftrightarrow> Classify (Some e) = CodeBudget \<or> Classify (Some e) = CodeNetwork"
  by (simp add: shouldRetryInvoke_def split: Code.splits)

lemma shouldRetryDecode_iff: "shouldRetryDecode (Some e) \<longleftrightarrow> Classify (Some e) = CodeProtocol"
  by (simp add: shouldRetryDecode_def)

lemma sleep200: "sleepWithCtx c (200 * Millisecond) = c"
  by (simp add: sleepWithCtx_def Millisecond_def)

lemma attemptLoop_cases:
  assumes "attemptLoop env st b tokens attempts a lastErr tr = (r, tr')"
  obtains
    (stop) "\<not> a < attempts" "tr' = tr"
  | (retry) ext e where "a + 1 < attempts" "gateOK env st tokens a" "retryable env b a"
      "attemptLoop env st b tokens attempts (a + 1) (Some e)
         (tr @ EvAttempt a # ext @ [EvSleep a (doneInSleep env a)]) = (r, tr')"
      "\<forall>ev \<in> set ext. \<not> isAttempt ev"
  | (final) ext where "a < attempts"
      "\<not> (a + 1 < attempts \<and> gateOK env st tokens a \<and> retryable env b a)"
      "tr' = tr @ EvAttempt a # ext" "\<forall>ev \<in> set ext. \<not> isAttempt ev"
proof (cases "a < attempts")
  case False
  with assms have "tr' = tr" by (simp add: attemptLoop.simps)
  with False stop show ?thesis by blast
next
  case lt: True
  let ?ask = "\<lparr>Key = GateKey st, Requests = 1, Tokens = tokens\<rparr>"
  let ?tgt = "\<lparr>tFileID = bFileID b, tFrom = TargetFrom b, tTo = TargetTo b\<rparr>"
  let ?w = "if hasGate st then [EvWait a ?ask] else []"
  show ?thesis
  proof (cases "gateOK env st tokens a")
    case False
    with assms lt have "tr' = tr @ EvAttempt a # ?w"
      by (subst (asm) attemptLoop.simps) (auto simp: gateOK_def Let_def split: option.splits)
    with final [of ?w] lt False show ?thesis by (simp add: isAttempt_def)
  next
    case g: True
    then have gw: "(if hasGate st then Wait env a ?ask else None) = None"
      by (auto simp: gateOK_def)
    show ?thesis
    proof (cases "Invoke env a")
      case (Inl e)
      show ?thesis
      proof (cases "a + 1 < attempts \<and> shouldRetryInvoke (Some e)")
        case True
        with assms lt gw Inl
        have "attemptLoop env st b tokens attempts (a + 1) (Some e)
           (tr @ EvAttempt a # (?w @ [EvInvoke a]) @ [EvSleep a (doneInSleep env a)]) = (r, tr')"
          by (subst (asm) attemptLoop.simps) (auto simp: Let_def sleep200 split: if_splits)
        moreover have "retryable env b a"
          using True Inl by (simp add: retryable_def shouldRetryInvoke_iff)
        ultimately show ?thesis
          using retry [where ext = "?w @ [EvInvoke a]" and e = e] True g by (simp add: isAttempt_def)
      next
        case False
        with assms lt gw Inl have "tr' = tr @ EvAttempt a # (?w @ [EvInvoke a])"
          by (subst (asm) attemptLoop.simps) (auto simp: Let_def)
        moreover have "\<not> (a + 1 < attempts \<and> retryable env b a)"
          using False Inl by (simp add: retryable_def shouldRetryInvoke_iff)
        ultimately show ?thesis
          using final [of "?w @ [EvInvoke a]"] lt by (auto simp: isAttempt_def)
      qed
    next
      case (Inr raw)
      show ?thesis
      proof (cases "runDecoder (decoder env) a ?tgt raw (Records b)")
        case dl: (Inl e)
        show ?thesis
        proof (cases "a + 1 < attempts \<and> shouldRetryDecode (Some e)")
          case True
          with assms lt gw Inr dl
          have "attemptLoop env st b tokens attempts (a + 1) (Some e)
             (tr @ EvAttempt a # (?w @ [EvInvoke a, EvDecode a]) @ [EvSleep a (doneInSleep env a)])
               = (r, tr')"
            by (subst (asm) attemptLoop.simps) (auto simp: Let_def sleep200 split: if_splits)
          moreover have "retryable env b a"
            using True Inr dl by (simp add: retryable_def shouldRetryDecode_iff)
          ultimately show ?thesis
            using retry [where ext = "?w @ [EvInvoke a, EvDecode a]" and e = e] True g by (simp add: isAttempt_def)
        next
          case False
          with assms lt gw Inr dl have "tr' = tr @ EvAttempt a # (?w @ [EvInvoke a, EvDecode a])"
            by (subst (asm) attemptLoop.simps) (auto simp: Let_def)
          moreover have "\<not> (a + 1 < attempts \<and> retryable env b a)"
            using False Inr dl by (simp add: retryable_def shouldRetryDecode_iff)
          ultimately show ?thesis
            using final [of "?w @ [EvInvoke a, EvDecode a]"] lt by (auto simp: isAttempt_def)
        qed
      next
        case dr: (Inr spans)
        with assms lt gw Inr have "tr' = tr @ EvAttempt a # (?w @ [EvInvoke a, EvDecode a])"
          by (subst (asm) attemptLoop.simps) (auto simp: Let_def)
        moreover have "\<not> retryable env b a"
          using Inr dr by (simp add: retryable_def)
        ultimately show ?thesis
          using final [of "?w @ [EvInvoke a, EvDecode a]"] lt by (auto simp: isAttempt_def)
      qed
    qed
  qed
qed

lemma attemptLoop_attempts:
  "attemptLoop env st b tokens attempts a lastErr tr = (r, tr') \<Longrightarrow>
     (EvAttempt k \<in> set tr' \<longleftrightarrow>
        EvAttempt k \<in> set tr \<or>
        (a \<le> k \<and> k < attempts \<and>
         (\<forall>j. a \<le> j \<and> j < k \<longrightarrow> gateOK env st tokens j \<and> retryable env b j)))"
proof (induction "nat (attempts - a)" arbitrary: a lastErr tr)
  case 0
  then have "\<not> a < attempts" by simp
  with "0.prems" have "tr' = tr" by (simp add: attemptLoop.simps)
  with \<open>\<not> a < attempts\<close> show ?case by auto
next
  case (Suc n)
  from Suc.prems show ?case
  proof (cases rule: attemptLoop_cases)
    case stop
    then show ?thesis by auto
  next
    case (retry ext e)
    have n: "n = nat (attempts - (a + 1))" using Suc.hyps(2) by simp
    have na: "EvAttempt k \<in> set ext \<longleftrightarrow> False"
      using retry(5) by (auto simp: isAttempt_def)
    have split: "(a \<le> k \<and> k < attempts \<and>
         (\<forall>j. a \<le> j \<and> j < k \<longrightarrow> gateOK env st tokens j \<and> retryable env b j))
      \<longleftrightarrow> (k = a \<or> (a + 1 \<le> k \<and> k < attempts \<and>
         (\<forall>j. a + 1 \<le> j \<and> j < k \<longrightarrow> gateOK env st tokens j \<and> retryable env b j)))"
    proof -
      have "(\<forall>j. a \<le> j \<and> j < k \<longrightarrow> gateOK env st tokens j \<and> retryable env b j)
        \<longleftrightarrow> (a < k \<longrightarrow> gateOK env st tokens a \<and> retryable env b a) \<and>
            (\<forall>j. a + 1 \<le> j \<and> j < k \<longrightarrow> gateOK env st tokens j \<and> retryable env b j)"
        by (metis add1_zle_eq order_le_less)
      with retry(1,2,3) show ?thesis by auto
    qed
    from Suc.hyps(1) [OF n retry(4)] show ?thesis
      unfolding split by (auto simp: na)
  next
    case (final ext)
    have na: "EvAttempt k \<in> set ext \<longleftrightarrow> False"
      using final(4) by (auto simp: isAttempt_def)
    have "(a \<le> k \<and> k < attempts \<and>
         (\<forall>j. a \<le> j \<and> j < k \<longrightarrow> gateOK env st tokens j \<and> retryable env b j)) \<longleftrightarrow> k = a"
      using final(1,2) by (auto simp: not_less)
    with final(3) show ?thesis by (auto simp: na)
  qed
qed

lemma attemptLoop_count:
  "attemptLoop env st b tokens attempts a lastErr tr = (r, tr') \<Longrightarrow>
     length (filter isAttempt tr') \<le> length (filter isAttempt tr) + nat (attempts - a)"
proof (induction "nat (attempts - a)" arbitrary: a lastErr tr)
  case 0
  then have "\<not> a < attempts" by simp
  with "0.prems" have "tr' = tr" by (simp add: attemptLoop.simps)
  then show ?case by simp
next
  case (Suc n)
  from Suc.prems show ?case
  proof (cases rule: attemptLoop_cases)
    case stop
    then show ?thesis by simp
  next
    case (retry ext e)
    have n: "n = nat (attempts - (a + 1))" using Suc.hyps(2) by simp
    have f: "filter isAttempt ext = []" using retry(5) by (simp add: filter_empty_conv)
    from Suc.hyps(1) [OF n retry(4)] retry(1) show ?thesis
      by (simp add: f isAttempt_def nat_diff_distrib)
  next
    case (final ext)
    have f: "filter isAttempt ext = []" using final(4) by (simp add: filter_empty_conv)
    from final(1,3) show ?thesis
      by (simp add: f isAttempt_def)
  qed
qed

lemma sleptBeforeRetry_append:
  assumes "sleptBeforeRetry env tr" "\<forall>ev \<in> set ext. \<not> isAttempt ev"
    "a = 0 \<or> (tr \<noteq> [] \<and> last tr = EvSleep (a - 1) (doneInSleep env (a - 1)))"
  shows "sleptBeforeRetry env (tr @ EvAttempt a # ext)"
  unfolding sleptBeforeRetry_def
proof (intro allI impI)
  fix i k
  assume i: "i < length (tr @ EvAttempt a # ext)"
    and e: "(tr @ EvAttempt a # ext) ! i = EvAttempt k \<and> 0 < k"
  consider "i < length tr" | "i = length tr" | "length tr < i" by linarith
  then show "0 < i \<and> (tr @ EvAttempt a # ext) ! (i - 1) = EvSleep (k - 1) (doneInSleep env (k - 1))"
  proof cases
    case 1
    with e have "tr ! i = EvAttempt k \<and> 0 < k" by (simp add: nth_append)
    with assms(1) 1 have "0 < i \<and> tr ! (i - 1) = EvSleep (k - 1) (doneInSleep env (k - 1))"
      unfolding sleptBeforeRetry_def by blast
    with 1 show ?thesis by (simp add: nth_append)
  next
    case 2
    with e have "k = a" by simp
    with e assms(3) have "tr \<noteq> []" "last tr = EvSleep (k - 1) (doneInSleep env (k - 1))"
      by auto
    with 2 show ?thesis
      by (simp add: nth_append last_conv_nth)
  next
    case 3
    with i e have "ext ! (i - length tr - 1) = EvAttempt k" "i - length tr - 1 < length ext"
      by (auto simp: nth_append nth_Cons')
    with assms(2) show ?thesis
      by (auto simp: isAttempt_def dest!: nth_mem split: wevent.splits)
  qed
qed

lemma attemptLoop_slept:
  "attemptLoop env st b tokens attempts a lastErr tr = (r, tr') \<Longrightarrow>
   sleptBeforeRetry env tr \<Longrightarrow>
   a = 0 \<or> (tr \<noteq> [] \<and> last tr = EvSleep (a - 1) (doneInSleep env (a - 1))) \<Longrightarrow>
   sleptBeforeRetry env tr'"
proof (induction "nat (attempts - a)" arbitrary: a lastErr tr)
  case 0
  then have "\<not> a < attempts" by simp
  with "0.prems" have "tr' = tr" by (simp add: attemptLoop.simps)
  with "0.prems" show ?case by simp
next
  case (Suc n)
  from Suc.prems(1) show ?case
  proof (cases rule: attemptLoop_cases)
    case stop
    with Suc.prems show ?thesis by simp
  next
    case (retry ext e)
    have n: "n = nat (attempts - (a + 1))" using Suc.hyps(2) by simp
    let ?tr = "tr @ EvAttempt a # ext @ [EvSleep a (doneInSleep env a)]"
    have "\<forall>ev \<in> set (ext @ [EvSleep a (doneInSleep env a)]). \<not> isAttempt ev"
      using retry(5) by (simp add: isAttempt_def)
    from sleptBeforeRetry_append [OF Suc.prems(2) this Suc.prems(3)]
    have 1: "sleptBeforeRetry env ?tr" by simp
    have 2: "a + 1 = 0 \<or> (?tr \<noteq> [] \<and> last ?tr = EvSleep (a + 1 - 1) (doneInSleep env (a + 1 - 1)))"
      by simp
    from Suc.hyps(1) [OF n retry(4) 1 2] show ?thesis .
  next
    case (final ext)
    from sleptBeforeRetry_append [OF Suc.prems(2) final(4) Suc.prems(3)] final(3)
    show ?thesis by simp
  qed
qed

text \<open>
  C4, as the code has it. A job is attempted at most \<open>maxRetries + 1\<close> times; the attempts
  made are numbered from 0 below \<open>maxRetries + 1\<close>. Attempt \<open>k + 1\<close> is made exactly when
  attempt \<open>k\<close> was made, \<open>k + 1 < maxRetries + 1\<close>, the gate (if any) admitted attempt
  \<open>k\<close>, and attempt \<open>k\<close> failed either in the LLM invocation with an error of class
  budget or network, or in decoding with an error of class protocol; so errors of the
  classes cancel, invariant, io and unknown are never retried. Every retry comes right
  after a call of \<open>sleepWithCtx(ctx, 200ms)\<close>, which returns \<open>ctx.Err()\<close> when the
  context is done before the timer fires; the worker discards that value and starts the
  next attempt in either case. If building the prompt fails, no attempt is made and the
  job's result carries that error.
\<close>

theorem worker_retry_policy:
  assumes "workerJob env st b = (r, tr)"
  shows "length (filter isAttempt tr) \<le> nat (MaxRetries st + 1)
    \<and> (\<forall>k. EvAttempt k \<in> set tr \<longrightarrow> 0 \<le> k \<and> k < MaxRetries st + 1)
    \<and> (\<forall>p k. Build env = Inr p \<and> 0 \<le> k \<longrightarrow>
          (EvAttempt (k + 1) \<in> set tr \<longleftrightarrow>
             EvAttempt k \<in> set tr \<and> k + 1 < MaxRetries st + 1
             \<and> gateOK env st (promptTokens st p) k \<and> retryable env b k))
    \<and> sleptBeforeRetry env tr
    \<and> (\<forall>e. Build env = Inl e \<longrightarrow> tr = [] \<and> resErr r = Some e)"
proof (cases "Build env")
  case (Inl e)
  with assms have "tr = []" "resErr r = Some e"
    by (auto simp: workerJob_def)
  with Inl show ?thesis by (simp add: sleptBeforeRetry_def)
next
  case (Inr p)
  let ?n = "MaxRetries st + 1"
  let ?t = "promptTokens st p"
  from assms Inr have l: "attemptLoop env st b ?t ?n 0 None [] = (r, tr)"
    by (simp add: workerJob_def Let_def)
  note at = attemptLoop_attempts [OF l]
  have 1: "length (filter isAttempt tr) \<le> nat ?n"
    using attemptLoop_count [OF l] by simp
  have 2: "\<forall>k. EvAttempt k \<in> set tr \<longrightarrow> 0 \<le> k \<and> k < ?n"
    using at by simp
  have 3: "EvAttempt (k + 1) \<in> set tr \<longleftrightarrow>
             EvAttempt k \<in> set tr \<and> k + 1 < ?n \<and> gateOK env st ?t k \<and> retryable env b k"
    if "0 \<le> k" for k
  proof -
    have "(\<forall>j. 0 \<le> j \<and> j < k + 1 \<longrightarrow> gateOK env st ?t j \<and> retryable env b j)
      \<longleftrightarrow> (\<forall>j. 0 \<le> j \<and> j < k \<longrightarrow> gateOK env st ?t j \<and> retryable env b j)
          \<and> gateOK env st ?t k \<and> retryable env b k"
      using that by (metis add1_zle_eq order_le_less zle_add1_eq_le)
    with that show ?thesis
      unfolding at [of "k + 1"] at [of k] by auto
  qed
  have "sleptBeforeRetry env []" by (simp add: sleptBeforeRetry_def)
  from attemptLoop_slept [OF l this] have 4: "sleptBeforeRetry env tr" by simp
  from 1 2 3 4 Inr show ?thesis by simp
qed

lemma workerJob_flaky:
  "workerJob flakyEnv flakySettings flakyBatch =
     (\<lparr>resIdx = 0, resSpans = [flakySpan], resErr = None\<rparr>,
      [EvAttempt 0, EvInvoke 0, EvSleep 0 (Some (Sentinel Canceled)),
       EvAttempt 1, EvInvoke 1, EvDecode 1, EvSleep 1 (Some (Sentinel Canceled)),
       EvAttempt 2, EvInvoke 2, EvDecode 2])"
  by (simp add: workerJob_def flakyEnv_def flakySettings_def flakyBatch_def promptTokens_def
      attemptLoop.simps Let_def shouldRetryInvoke_def shouldRetryDecode_def Classify_def
      runDecoder_def sleepWithCtx_def Millisecond_def)

theorem worker_retry_policy_witness:
  "EvAttempt 1 \<in> set (snd (workerJob flakyEnv flakySettings flakyBatch))
   \<and> gateOK flakyEnv flakySettings (promptTokens flakySettings (TextPrompt ''p'')) 0
   \<and> retryable flakyEnv flakyBatch 0
   \<and> EvAttempt 3 \<notin> set (snd (workerJob flakyEnv flakySettings flakyBatch))
   \<and> length (filter isAttempt (snd (workerJob flakyEnv flakySettings flakyBatch))) \<le> 3"
proof -
  note w = worker_retry_policy [OF workerJob_flaky]
  have b: "Build flakyEnv = Inr (TextPrompt ''p'') \<and> (0::int) \<le> 0"
    by (simp add: flakyEnv_def)
  have a0: "EvAttempt 0 \<in> set (snd (workerJob flakyEnv flakySettings flakyBatch))"
    by (simp add: workerJob_flaky)
  have g: "gateOK flakyEnv flakySettings (promptTokens flakySettings (TextPrompt ''p'')) 0"
    by (simp add: gateOK_def flakySettings_def)
  have r: "retryable flakyEnv flakyBatch 0"
    by (simp add: retryable_def flakyEnv_def Classify_def)
  from w have "\<forall>p k. Build flakyEnv = Inr p \<and> 0 \<le> k \<longrightarrow>
          (EvAttempt (k + 1) \<in> set (snd (workerJob flakyEnv flakySettings flakyBatch)) \<longleftrightarrow>
             EvAttempt k \<in> set (snd (workerJob flakyEnv flakySettings flakyBatch))
             \<and> k + 1 < MaxRetries flakySettings + 1
             \<and> gateOK flakyEnv flakySettings (promptTokens flakySettings p) k
             \<and> retryable flakyEnv flakyBatch k)"
    unfolding workerJob_flaky snd_conv by (elim conjE)
  with b have "EvAttempt (0 + 1) \<in> set (snd (workerJob flakyEnv flakySettings flakyBatch)) \<longleftrightarrow>
             EvAttempt 0 \<in> set (snd (workerJob flakyEnv flakySettings flakyBatch))
             \<and> 0 + 1 < MaxRetries flakySettings + 1
             \<and> gateOK flakyEnv flakySettings (promptTokens flakySettings (TextPrompt ''p'')) 0
             \<and> retryable flakyEnv flakyBatch 0"
    by blast
  with a0 g r have 1: "EvAttempt 1 \<in> set (snd (workerJob flakyEnv flakySettings flakyBatch))"
    by (simp add: flakySettings_def)
  from w have "\<forall>k. EvAttempt k \<in> set (snd (workerJob flakyEnv flakySettings flakyBatch))
      \<longrightarrow> 0 \<le> k \<and> k < MaxRetries flakySettings + 1"
    unfolding workerJob_flaky snd_conv by (elim conjE)
  then have 2: "EvAttempt 3 \<notin> set (snd (workerJob flakyEnv flakySettings flakyBatch))"
    by (auto simp: flakySettings_def)
  from w have "length (filter isAttempt (snd (workerJob flakyEnv flakySettings flakyBatch)))
      \<le> nat (MaxRetries flakySettings + 1)"
    unfolding workerJob_flaky snd_conv by (elim conjE)
  then have 3: "length (filter isAttempt (snd (workerJob flakyEnv flakySettings flakyBatch))) \<le> 3"
    by (simp add: flakySettings_def)
  from 1 g r 2 3 show ?thesis by simp
qed

text \<open>The context is cancelled during the sleep after attempt 0, and the worker goes on: it
  invokes the client twice more and reports success, not \<open>ctx.Err()\<close>.\<close>

theorem worker_sleep_counterexample:
  "workerJob flakyEnv flakySettings flakyBatch =
     (\<lparr>resIdx = 0, resSpans = [flakySpan], resErr = None\<rparr>,
      [EvAttempt 0, EvInvoke 0, EvSleep 0 (Some (Sentinel Canceled)),
       EvAttempt 1, EvInvoke 1, EvDecode 1, EvSleep 1 (Some (Sentinel Canceled)),
       EvAttempt 2, EvInvoke 2, EvDecode 2])
   \<and> sleepWithCtx (doneInSleep flakyEnv 0) (200 * Millisecond) = Some (Sentinel Canceled)"
  by (simp add: workerJob_def flakyEnv_def flakySettings_def flakyBatch_def promptTokens_def
      attemptLoop.simps Let_def shouldRetryInvoke_def shouldRetryDecode_def Classify_def
      runDecoder_def sleepWithCtx_def Millisecond_def)

section \<open>Properties of the commit gate\<close>

lemma rowsLoop_spans:
  "map (\<lambda>r. (file_id r, rowFrom r, rowTo r)) (rowsLoop env fid recs spans)
     = map (\<lambda>sp. (fid, sFrom sp, sTo sp)) spans"
  by (induction spans arbitrary: recs) (simp_all add: Let_def rowOf_def)

lemma rowsOf_spans:
  "map (\<lambda>r. (file_id r, rowFrom r, rowTo r)) (rowsOf env fid recs spans)
     = map (\<lambda>sp. (fid, sFrom sp, sTo sp)) spans"
  by (simp add: rowsOf_def rowsLoop_spans)

lemma sidecarLoop_ok:
  "\<forall>k. encodeErr env k = None \<Longrightarrow>
     sidecarLoop env fid recs spans g =
       g\<lparr>nEncode := nEncode g + length spans,
         events := events g @ map (SidecarLine (expect g)) (rowsLoop env fid recs spans)\<rparr>"
proof (induction spans arbitrary: recs g)
  case Nil
  show ?case by simp
next
  case (Cons sp sps)
  show ?case
    using Cons.prems by (simp add: Let_def Cons.IH [OF Cons.prems])
qed

lemma sidecarStep_ok:
  "\<forall>k. encodeErr env k = None \<Longrightarrow>
     sidecarStep env fid recs spans g =
       g\<lparr>nEncode := nEncode g + length spans,
         events := events g @ map (SidecarLine (expect g)) (rowsOf env fid recs spans)\<rparr>"
  by (simp add: sidecarStep_def rowsOf_def sidecarLoop_ok)

lemma commitRound_ok:
  assumes e: "\<forall>k. encodeErr env k = None" and c: "\<forall>k. copyErr env k = None"
      and asm: "\<forall>k. \<exists>bytes. assembler env k (cancelled g) fid spans = Inr bytes"
  shows "\<exists>g'. commitRound env fid bt spans g = (g', True)
     \<and> buf g' = buf g \<and> expect g' = expect g \<and> panicked g' = panicked g
     \<and> cancelled g' = cancelled g
     \<and> map eraseBytes (events g')
         = map eraseBytes (events g)
           @ map (SidecarLine (expect g)) (rowsOf env fid (Records bt) spans)
           @ [AssembleCall (expect g) spans, PrimaryBytes (expect g) []]"
proof -
  let ?g1 = "sidecarStep env fid (Records bt) spans g"
  have "cancelled ?g1 = cancelled g" by (simp add: sidecarStep_ok [OF e])
  moreover from asm
  have "\<exists>bytes. assembler env (nAssemble ?g1) (cancelled g) fid spans = Inr bytes"
    by simp
  ultimately obtain bytes
    where a: "assembler env (nAssemble ?g1) (cancelled ?g1) fid spans = Inr bytes"
    by auto
  show ?thesis
    using a c
    by (simp add: commitRound_def Let_def sidecarStep_ok [OF e] eraseBytes_def comp_def)
qed

lemma committed_Suc:
  "0 \<le> e \<Longrightarrow>
     committed env fid batches S (e + 1)
       = committed env fid batches S e @ batchEvents env fid batches S e"
  by (simp add: committed_def upto_rec2)

lemma committed_cong:
  "(\<And>k. 0 \<le> k \<Longrightarrow> k < e \<Longrightarrow> S k = S' k) \<Longrightarrow>
     committed env fid batches S e = committed env fid batches S' e"
  unfolding committed_def
  by (rule arg_cong [where f = concat], rule map_cong) (simp_all add: batchEvents_def)

lemma flush_inv:
  "stepOK env (cancelled g) fid S \<Longrightarrow> (\<forall>k v. S k = Some v \<longrightarrow> 0 \<le> k \<and> k < int (length batches))
     \<Longrightarrow> 0 \<le> expect g \<Longrightarrow> \<not> panicked g
     \<Longrightarrow> (\<forall>k. map_of (buf g) k = (if expect g \<le> k then S k else None))
     \<Longrightarrow> (\<forall>k. 0 \<le> k \<and> k < expect g \<longrightarrow> S k \<noteq> None)
     \<Longrightarrow> distinct (map fst (buf g))
     \<Longrightarrow> map eraseBytes (events g) = committed env fid batches S (expect g)
     \<Longrightarrow> gateInv env fid batches S (cancelled g) (flush env fid batches g)"
proof (induction env fid batches g rule: flush.induct)
  case (1 env fid batches g)
  note nf = "1.prems"(1) and dom = "1.prems"(2) [rule_format]
    and nn = "1.prems"(3) and np = "1.prems"(4) and mp = "1.prems"(5)
    and lo = "1.prems"(6) and di = "1.prems"(7) and ev = "1.prems"(8)
  show ?case
  proof (cases "map_of (buf g) (expect g)")
    case None
    with mp have "S (expect g) = None" by (metis order_refl)
    moreover from None have "flush env fid batches g = g" by (subst flush.simps) simp
    ultimately show ?thesis
      using nn np mp lo di ev by (simp add: gateInv_def)
  next
    case (Some spans)
    with mp have sk: "S (expect g) = Some spans" by (metis order_refl)
    from dom [OF sk] nn have ea: "elem_at batches (expect g) = Some (batches ! nat (expect g))"
      by (simp add: elem_at_def)
    let ?bt = "batches ! nat (expect g)"
    from nf sk have e: "\<forall>k. encodeErr env k = None" and c: "\<forall>k. copyErr env k = None"
      and a: "\<forall>k. \<exists>bytes. assembler env k (cancelled g) fid spans = Inr bytes"
      unfolding stepOK_def by blast+
    from commitRound_ok [OF e c a, where bt = ?bt]
    obtain g' where cr: "commitRound env fid ?bt spans g = (g', True)"
      and b': "buf g' = buf g" and e': "expect g' = expect g" and p': "panicked g' = panicked g"
      and c': "cancelled g' = cancelled g"
      and ev': "map eraseBytes (events g')
         = map eraseBytes (events g)
           @ map (SidecarLine (expect g)) (rowsOf env fid (Records ?bt) spans)
           @ [AssembleCall (expect g) spans, PrimaryBytes (expect g) []]"
      by blast
    let ?g2 = "g'\<lparr>buf := AList.delete (expect g) (buf g), expect := expect g + 1\<rparr>"
    have fl: "flush env fid batches g = flush env fid batches ?g2"
      by (subst flush.simps) (simp add: Some ea cr)
    have "gateInv env fid batches S (cancelled ?g2) (flush env fid batches ?g2)"
    proof (rule "1.IH" [OF Some ea cr [symmetric] refl _ "1.prems"(2)])
      show "stepOK env (cancelled ?g2) fid S" using nf c' by simp
      show "0 \<le> expect ?g2" using nn by simp
      show "\<not> panicked ?g2" using np p' by simp
      show "\<forall>k. map_of (buf ?g2) k = (if expect ?g2 \<le> k then S k else None)"
        using mp by (auto simp: AList.delete_conv)
      show "\<forall>k. 0 \<le> k \<and> k < expect ?g2 \<longrightarrow> S k \<noteq> None"
        using lo sk by (auto simp: less_le)
      show "distinct (map fst (buf ?g2))" using di by (simp add: distinct_delete)
      show "map eraseBytes (events ?g2) = committed env fid batches S (expect ?g2)"
        using ev ev' sk nn by (simp add: committed_Suc batchEvents_def)
    qed
    with fl c' show ?thesis by simp
  qed
qed

lemma gateInv_gate0: "gateInv env fid batches Map.empty False gate0"
  by (simp add: gateInv_def gate0_def committed_def)

lemma gateStep_err_inv:
  assumes "gateInv env fid batches S c g" and "resErr r \<noteq> None"
  shows "\<exists>c'. gateInv env fid batches S c' (gateStep env fid batches g r)"
proof -
  from assms(2) obtain e where "resErr r = Some e" by blast
  with assms(1) show ?thesis by (simp add: gateStep_def gateInv_def Let_def)
qed

lemma gateStep_ok_inv:
  assumes nf: "stepOK env c fid (S(resIdx r \<mapsto> resSpans r))"
      and inv: "gateInv env fid batches S c g"
      and dom: "\<forall>k v. S k = Some v \<longrightarrow> 0 \<le> k \<and> k < int (length batches)"
      and ok: "resErr r = None"
      and new: "S (resIdx r) = None"
      and rng: "0 \<le> resIdx r" "resIdx r < int (length batches)"
  shows "gateInv env fid batches (S(resIdx r \<mapsto> resSpans r)) c (gateStep env fid batches g r)"
proof -
  let ?i = "resIdx r"
  let ?S = "S(?i \<mapsto> resSpans r)"
  let ?g1 = "g\<lparr>doneCount := doneCount g + 1,
               buf := AList.update ?i (resSpans r) (buf g)\<rparr>"
  from inv have nn: "0 \<le> expect g" and np: "\<not> panicked g" and cc: "cancelled g = c"
    and mp: "\<forall>k. map_of (buf g) k = (if expect g \<le> k then S k else None)"
    and lo: "\<forall>k. 0 \<le> k \<and> k < expect g \<longrightarrow> S k \<noteq> None"
    and di: "distinct (map fst (buf g))"
    and ev: "map eraseBytes (events g) = committed env fid batches S (expect g)"
    by (simp_all add: gateInv_def)
  from lo new rng(1) have ge: "expect g \<le> ?i" by (metis not_le)
  have st: "gateStep env fid batches g r = flush env fid batches ?g1"
    using ok np by (simp add: gateStep_def Let_def)
  have "gateInv env fid batches ?S (cancelled ?g1) (flush env fid batches ?g1)"
  proof (rule flush_inv)
    show "stepOK env (cancelled ?g1) fid ?S" using nf cc by simp
    show "\<forall>k v. ?S k = Some v \<longrightarrow> 0 \<le> k \<and> k < int (length batches)"
      using dom rng by auto
    show "0 \<le> expect ?g1" using nn by simp
    show "\<not> panicked ?g1" using np by simp
    show "\<forall>k. map_of (buf ?g1) k = (if expect ?g1 \<le> k then ?S k else None)"
      using mp ge by (simp add: AList.update_conv)
    show "\<forall>k. 0 \<le> k \<and> k < expect ?g1 \<longrightarrow> ?S k \<noteq> None"
      using lo by simp
    show "distinct (map fst (buf ?g1))" using di by (simp add: distinct_update)
    have "committed env fid batches ?S (expect g) = committed env fid batches S (expect g)"
      using ge by (intro committed_cong) simp
    with ev show "map eraseBytes (events ?g1) = committed env fid batches ?S (expect ?g1)"
      by simp
  qed
  with st cc show ?thesis by simp
qed

lemma okMap_snoc:
  "okMap (rs @ [r]) = (if resErr r = None then (okMap rs)(resIdx r \<mapsto> resSpans r) else okMap rs)"
  by (simp add: okMap_def)

lemma okMap_Some:
  "okMap rs k = Some v \<Longrightarrow> \<exists>r \<in> set rs. resErr r = None \<and> resIdx r = k \<and> resSpans r = v"
proof (induction rs arbitrary: v rule: rev_induct)
  case Nil
  then show ?case by (simp add: okMap_def)
next
  case (snoc r rs)
  then show ?case by (auto simp: okMap_snoc split: if_splits)
qed

lemma wellFormed_snoc:
  "wellFormed batches (rs @ [r]) \<Longrightarrow>
     wellFormed batches rs
     \<and> (resErr r = None \<longrightarrow>
          0 \<le> resIdx r \<and> resIdx r < int (length batches) \<and> okMap rs (resIdx r) = None)"
proof -
  assume w: "wellFormed batches (rs @ [r])"
  then have w1: "wellFormed batches rs" by (auto simp: wellFormed_def)
  have "okMap rs (resIdx r) = None" if ok: "resErr r = None"
  proof (rule ccontr)
    assume "okMap rs (resIdx r) \<noteq> None"
    then obtain v where "okMap rs (resIdx r) = Some v" by blast
    from okMap_Some [OF this] obtain r' where "r' \<in> set rs" "resErr r' = None" "resIdx r' = resIdx r"
      by blast
    then have "resIdx r \<in> resIdx ` set (filter (\<lambda>r. resErr r = None) rs)"
      by (simp add: image_iff) metis
    with w ok show False by (simp add: wellFormed_def)
  qed
  with w w1 show ?thesis by (auto simp: wellFormed_def)
qed

lemma okMap_range:
  "wellFormed batches rs \<Longrightarrow> okMap rs k = Some v \<Longrightarrow> 0 \<le> k \<and> k < int (length batches)"
  by (drule okMap_Some) (auto simp: wellFormed_def)

lemma okMap_iff:
  "wellFormed batches rs \<Longrightarrow>
     okMap rs k = Some v \<longleftrightarrow> (\<exists>r \<in> set rs. resErr r = None \<and> resIdx r = k \<and> resSpans r = v)"
proof (induction rs arbitrary: k v rule: rev_induct)
  case Nil
  then show ?case by (simp add: okMap_def)
next
  case (snoc r rs)
  from wellFormed_snoc [OF snoc.prems]
  have w: "wellFormed batches rs"
    and n: "resErr r = None \<longrightarrow> okMap rs (resIdx r) = None" by simp_all
  note ih = snoc.IH [OF w]
  show ?case
  proof (cases "resErr r = None")
    case False
    then show ?thesis using ih [of k v] by (auto simp: okMap_snoc)
  next
    case True
    with n have nn: "okMap rs (resIdx r) = None" by simp
    have no: "\<not> (\<exists>r' \<in> set rs. resErr r' = None \<and> resIdx r' = resIdx r \<and> resSpans r' = v')" for v'
      using nn ih [of "resIdx r" v'] by simp
    show ?thesis
    proof (cases "k = resIdx r")
      case True
      with no [of v] \<open>resErr r = None\<close> show ?thesis by (auto simp: okMap_snoc)
    next
      case False
      with ih [of k v] \<open>resErr r = None\<close> show ?thesis by (auto simp: okMap_snoc)
    qed
  qed
qed

lemma gateRun_snoc:
  "gateRun env fid batches (rs @ [r]) = gateStep env fid batches (gateRun env fid batches rs) r"
  by (simp add: gateRun_def)

lemma noFail_snoc: "noFail env fid (rs @ [r]) \<Longrightarrow> noFail env fid rs"
  by (auto simp: noFail_def anyFailed_def assembleOK_def)

lemma noFail_stepOK:
  assumes nf: "noFail env fid rs" and c: "c \<longrightarrow> anyFailed rs"
  shows "stepOK env c fid (okMap rs)"
proof -
  from nf c have a: "assembleOK env c fid rs" by (cases c) (simp_all add: noFail_def)
  have "\<exists>bytes. assembler env k c fid spans = Inr bytes" if "okMap rs j = Some spans" for k j spans
  proof -
    from okMap_Some [OF that] obtain r where "r \<in> set rs" "resErr r = None" "resSpans r = spans"
      by blast
    with a show ?thesis unfolding assembleOK_def by blast
  qed
  with nf show ?thesis unfolding stepOK_def noFail_def by blast
qed

lemma gateRun_inv:
  "noFail env fid rs \<Longrightarrow> wellFormed batches rs \<Longrightarrow>
     \<exists>c. gateInv env fid batches (okMap rs) c (gateRun env fid batches rs)
          \<and> (c \<longrightarrow> anyFailed rs)"
proof (induction rs rule: rev_induct)
  case Nil
  have "gateInv env fid batches (okMap []) False (gateRun env fid batches [])"
    by (simp add: okMap_def gateRun_def gateInv_gate0)
  then show ?case by blast
next
  case (snoc r rs)
  from wellFormed_snoc [OF snoc.prems(2)]
  have w: "wellFormed batches rs"
    and n: "resErr r = None \<longrightarrow>
          0 \<le> resIdx r \<and> resIdx r < int (length batches) \<and> okMap rs (resIdx r) = None"
    by simp_all
  from snoc.IH [OF noFail_snoc [OF snoc.prems(1)] w]
  obtain c where ih: "gateInv env fid batches (okMap rs) c (gateRun env fid batches rs)"
    and cf: "c \<longrightarrow> anyFailed rs" by blast
  show ?case
  proof (cases "resErr r = None")
    case False
    then have eq: "okMap (rs @ [r]) = okMap rs" by (simp only: okMap_snoc if_False)
    from False have "anyFailed (rs @ [r])" by (simp add: anyFailed_def)
    with gateStep_err_inv [OF ih False] eq show ?thesis
      by (simp only: gateRun_snoc) blast
  next
    case True
    from cf have "c \<longrightarrow> anyFailed (rs @ [r])" by (simp add: anyFailed_def)
    from noFail_stepOK [OF snoc.prems(1) this]
    have so: "stepOK env c fid ((okMap rs)(resIdx r \<mapsto> resSpans r))"
      using True by (simp only: okMap_snoc refl if_True)
    have "\<forall>k v. okMap rs k = Some v \<longrightarrow> 0 \<le> k \<and> k < int (length batches)"
      using okMap_range [OF w] by blast
    moreover from n True have "okMap rs (resIdx r) = None" "0 \<le> resIdx r"
      "resIdx r < int (length batches)" by simp_all
    ultimately have "gateInv env fid batches ((okMap rs)(resIdx r \<mapsto> resSpans r)) c
            (gateStep env fid batches (gateRun env fid batches rs) r)"
      by (rule gateStep_ok_inv [OF so ih _ True])
    moreover from True have "okMap (rs @ [r]) = (okMap rs)(resIdx r \<mapsto> resSpans r)"
      by (simp only: okMap_snoc refl if_True)
    ultimately show ?thesis
      using \<open>c \<longrightarrow> anyFailed (rs @ [r])\<close> by (simp only: gateRun_snoc) blast
  qed
qed

lemma gateInv_expect_unique:
  assumes "gateInv env fid batches S c g" and "gateInv env fid batches S c' g'"
  shows "expect g = expect g'"
proof (rule ccontr)
  assume ne: "expect g \<noteq> expect g'"
  from assms have a: "0 \<le> expect g" "S (expect g) = None"
    "\<forall>k. 0 \<le> k \<and> k < expect g \<longrightarrow> S k \<noteq> None"
    and b: "0 \<le> expect g'" "S (expect g') = None"
    "\<forall>k. 0 \<le> k \<and> k < expect g' \<longrightarrow> S k \<noteq> None"
    by (simp_all add: gateInv_def)
  from ne consider "expect g < expect g'" | "expect g' < expect g" by linarith
  then show False
  proof cases
    case 1
    with a(1) b(3) have "S (expect g) \<noteq> None" by blast
    with a(2) show False by simp
  next
    case 2
    with b(1) a(3) have "S (expect g') \<noteq> None" by blast
    with b(2) show False by simp
  qed
qed

lemma okMap_set_eq:
  assumes "wellFormed batches rs" and "wellFormed batches rs'" and "set rs' = set rs"
  shows "okMap rs' = okMap rs"
proof
  fix k
  have "okMap rs' k = Some v \<longleftrightarrow> okMap rs k = Some v" for v
    unfolding okMap_iff [OF assms(1)] okMap_iff [OF assms(2)] assms(3) ..
  then show "okMap rs' k = okMap rs k"
    by (cases "okMap rs k"; cases "okMap rs' k") (fastforce+)
qed

lemma noFail_set_eq: "set rs' = set rs \<Longrightarrow> noFail env fid rs' = noFail env fid rs"
  by (simp add: noFail_def anyFailed_def assembleOK_def)

lemma gate_commit_order:
  assumes "noFail env fid rs" and "wellFormed batches rs"
  shows "map eraseBytes (events (gateRun env fid batches rs))
           = committed env fid batches (okMap rs) (expect (gateRun env fid batches rs))"
    and "0 \<le> expect (gateRun env fid batches rs)"
    and "okMap rs (expect (gateRun env fid batches rs)) = None"
    and "\<forall>k. 0 \<le> k \<and> k < expect (gateRun env fid batches rs) \<longrightarrow> okMap rs k \<noteq> None"
proof -
  from gateRun_inv [OF assms]
  obtain c where "gateInv env fid batches (okMap rs) c (gateRun env fid batches rs)" by blast
  then show "map eraseBytes (events (gateRun env fid batches rs))
           = committed env fid batches (okMap rs) (expect (gateRun env fid batches rs))"
    and "0 \<le> expect (gateRun env fid batches rs)"
    and "okMap rs (expect (gateRun env fid batches rs)) = None"
    and "\<forall>k. 0 \<le> k \<and> k < expect (gateRun env fid batches rs) \<longrightarrow> okMap rs k \<noteq> None"
    unfolding gateInv_def by blast+
qed

lemma gate_order_independent:
  assumes "noFail env fid rs" and "wellFormed batches rs"
      and "set rs' = set rs" and "wellFormed batches rs'"
  shows "expect (gateRun env fid batches rs') = expect (gateRun env fid batches rs)
     \<and> map eraseBytes (events (gateRun env fid batches rs'))
         = map eraseBytes (events (gateRun env fid batches rs))"
proof -
  from gateRun_inv [OF assms(1,2)]
  obtain c where a: "gateInv env fid batches (okMap rs) c (gateRun env fid batches rs)" by blast
  from assms(1) have "noFail env fid rs'" by (simp only: noFail_set_eq [OF assms(3)])
  from gateRun_inv [OF this assms(4)]
  obtain c' where "gateInv env fid batches (okMap rs') c' (gateRun env fid batches rs')" by blast
  with okMap_set_eq [OF assms(2,4,3)]
  have b: "gateInv env fid batches (okMap rs) c' (gateRun env fid batches rs')" by simp
  from gateInv_expect_unique [OF b a]
  have e: "expect (gateRun env fid batches rs') = expect (gateRun env fid batches rs)" .
  from a have "map eraseBytes (events (gateRun env fid batches rs))
      = committed env fid batches (okMap rs) (expect (gateRun env fid batches rs))"
    unfolding gateInv_def by blast
  moreover from b have "map eraseBytes (events (gateRun env fid batches rs'))
      = committed env fid batches (okMap rs) (expect (gateRun env fid batches rs'))"
    unfolding gateInv_def by blast
  ultimately show ?thesis using e by simp
qed

subsection \<open>The size of the buffer\<close>

lemma gateInv_buf_bound:
  assumes inv: "gateInv env fid batches S c g"
      and dom: "\<forall>k v. S k = Some v \<longrightarrow> 0 \<le> k \<and> k < n"
  shows "int (length (buf g)) \<le> max 0 (n - 1 - expect g)"
proof -
  from inv have mp: "\<forall>k. map_of (buf g) k = (if expect g \<le> k then S k else None)"
    and se: "S (expect g) = None" and di: "distinct (map fst (buf g))"
    by (simp_all add: gateInv_def)
  have "set (map fst (buf g)) \<subseteq> {expect g + 1 .. n - 1}"
  proof
    fix k
    assume "k \<in> set (map fst (buf g))"
    then have "map_of (buf g) k \<noteq> None" by (simp add: map_of_eq_None_iff)
    then obtain v where v: "map_of (buf g) k = Some v" by blast
    with mp have ge: "expect g \<le> k" and sk: "S k = Some v"
      by (metis option.distinct(1))+
    from sk se have "k \<noteq> expect g" by auto
    with ge sk dom show "k \<in> {expect g + 1 .. n - 1}" by force
  qed
  then have "card (set (map fst (buf g))) \<le> card {expect g + 1 .. n - 1}"
    by (intro card_mono) simp_all
  moreover from distinct_card [OF di] have "card (set (map fst (buf g))) = length (buf g)"
    by simp
  ultimately have "length (buf g) \<le> nat (n - 1 - expect g)" by simp
  then show ?thesis by simp
qed

lemma sidecarLoop_buf: "buf (sidecarLoop env fid recs spans g) = buf g"
  by (induction spans arbitrary: recs g) (simp_all add: Let_def)

lemma commitRound_buf: "buf (fst (commitRound env fid bt spans g)) = buf g"
  by (simp add: commitRound_def sidecarStep_def sidecarLoop_buf Let_def split: sum.splits)

lemma flush_buf:
  "distinct (map fst (buf g)) \<Longrightarrow>
     distinct (map fst (buf (flush env fid batches g)))
     \<and> set (map fst (buf (flush env fid batches g))) \<subseteq> set (map fst (buf g))"
proof (induction env fid batches g rule: flush.induct)
  case (1 env fid batches g)
  show ?case
  proof (cases "map_of (buf g) (expect g)")
    case None
    then show ?thesis using "1.prems" by (subst (1 2) flush.simps) simp
  next
    case (Some spans)
    show ?thesis
    proof (cases "elem_at batches (expect g)")
      case None
      with Some show ?thesis using "1.prems" by (subst (1 2) flush.simps) simp
    next
      case (Some bt)
      obtain g' b where cr: "commitRound env fid bt spans g = (g', b)" by fastforce
      with commitRound_buf [of env fid bt spans g] have bg: "buf g' = buf g" by simp
      show ?thesis
      proof (cases b)
        case False
        with cr \<open>map_of (buf g) (expect g) = Some spans\<close> Some bg "1.prems"
        show ?thesis by (subst (1 2) flush.simps) simp
      next
        case True
        let ?g2 = "g'\<lparr>buf := AList.delete (expect g) (buf g), expect := expect g + 1\<rparr>"
        have fl: "flush env fid batches g = flush env fid batches ?g2"
          using cr True \<open>map_of (buf g) (expect g) = Some spans\<close> Some
          by (subst flush.simps) simp
        have d2: "distinct (map fst (buf ?g2))" using "1.prems" by (simp add: distinct_delete)
        have "distinct (map fst (buf (flush env fid batches ?g2)))
          \<and> set (map fst (buf (flush env fid batches ?g2))) \<subseteq> set (map fst (buf ?g2))"
          using True by (intro "1.IH" [OF \<open>map_of (buf g) (expect g) = Some spans\<close> Some
              cr [symmetric] _ d2]) simp
        moreover have "set (map fst (buf ?g2)) \<subseteq> set (map fst (buf g))"
          by (auto simp: AList.delete_eq)
        ultimately show ?thesis unfolding fl by blast
      qed
    qed
  qed
qed

lemma gateStep_buf:
  assumes di: "distinct (map fst (buf g))"
      and ks: "\<forall>k \<in> set (map fst (buf g)). 0 \<le> k \<and> k < n"
      and rg: "resErr r = None \<longrightarrow> 0 \<le> resIdx r \<and> resIdx r < n"
  shows "distinct (map fst (buf (gateStep env fid batches g r)))
     \<and> (\<forall>k \<in> set (map fst (buf (gateStep env fid batches g r))). 0 \<le> k \<and> k < n)"
proof (cases "panicked g \<or> resErr r \<noteq> None")
  case True
  then have "buf (gateStep env fid batches g r) = buf g"
    by (auto simp: gateStep_def Let_def)
  with di ks show ?thesis by simp
next
  case False
  let ?g1 = "g\<lparr>doneCount := doneCount g + 1,
               buf := AList.update (resIdx r) (resSpans r) (buf g)\<rparr>"
  from False have st: "gateStep env fid batches g r = flush env fid batches ?g1"
    by (simp add: gateStep_def Let_def)
  have d1: "distinct (map fst (buf ?g1))" using di by (simp add: distinct_update)
  have k1: "\<forall>k \<in> set (map fst (buf ?g1)). 0 \<le> k \<and> k < n"
    using ks rg False by (auto simp: update_keys)
  from flush_buf [OF d1, of env fid batches] k1 show ?thesis
    unfolding st by blast
qed

lemma gateRun_buf:
  "\<forall>r \<in> set rs. resErr r = None \<longrightarrow> 0 \<le> resIdx r \<and> resIdx r < n \<Longrightarrow>
     distinct (map fst (buf (gateRun env fid batches rs)))
     \<and> (\<forall>k \<in> set (map fst (buf (gateRun env fid batches rs))). 0 \<le> k \<and> k < n)"
proof (induction rs rule: rev_induct)
  case Nil
  show ?case by (simp add: gateRun_def gate0_def)
next
  case (snoc r rs)
  from snoc.prems have "\<forall>r \<in> set rs. resErr r = None \<longrightarrow> 0 \<le> resIdx r \<and> resIdx r < n"
    and rg: "resErr r = None \<longrightarrow> 0 \<le> resIdx r \<and> resIdx r < n" by simp_all
  from snoc.IH [OF this(1)] have "distinct (map fst (buf (gateRun env fid batches rs)))"
    and "\<forall>k \<in> set (map fst (buf (gateRun env fid batches rs))). 0 \<le> k \<and> k < n"
    by blast+
  from gateStep_buf [OF this rg, of env fid batches] show ?case
    unfolding gateRun_snoc .
qed

lemma distinct_range_length:
  assumes "distinct (ks :: int list)" and "\<forall>k \<in> set ks. 0 \<le> k \<and> k < int n"
  shows "length ks \<le> n"
proof -
  from assms(2) have "set ks \<subseteq> {0 ..< int n}" by auto
  then have "card (set ks) \<le> card {0 ..< int n}" by (intro card_mono) simp_all
  with distinct_card [OF assms(1)] show ?thesis by simp
qed

lemma gateRun_buf_length:
  assumes "\<forall>r \<in> set rs. resErr r = None \<longrightarrow> 0 \<le> resIdx r \<and> resIdx r < int (length batches)"
  shows "length (buf (gateRun env fid batches rs)) \<le> length batches"
proof -
  from gateRun_buf [OF assms, of env fid batches]
  have "distinct (map fst (buf (gateRun env fid batches rs)))"
    and "\<forall>k \<in> set (map fst (buf (gateRun env fid batches rs))). 0 \<le> k \<and> k < int (length batches)"
    by blast+
  from distinct_range_length [OF this] show ?thesis by simp
qed

lemma flush_None:
  "map_of (buf g) (expect g) = None \<Longrightarrow> flush env fid batches g = g"
  by (subst flush.simps) simp

lemma flush_break:
  "map_of (buf g) (expect g) = Some spans \<Longrightarrow> elem_at batches (expect g) = Some bt
     \<Longrightarrow> commitRound env fid bt spans g = (g', False) \<Longrightarrow> flush env fid batches g = g'"
  by (subst flush.simps) simp

lemma flush_next:
  "map_of (buf g) (expect g) = Some spans \<Longrightarrow> elem_at batches (expect g) = Some bt
     \<Longrightarrow> commitRound env fid bt spans g = (g', True)
     \<Longrightarrow> flush env fid batches g
         = flush env fid batches (g'\<lparr>buf := AList.delete (expect g) (buf g), expect := expect g + 1\<rparr>)"
  by (subst flush.simps) simp

lemmas gate_eval =
  gateRun_def gateStep_def gate0_def commitRound_def sidecarStep_def Let_def elem_at_def
  rowOf_def dstOf_def exBatches_def exBatch_def exRecord_def exSpan_def exRow_def okRes_def
  errRes_def linearEnv_def Assemble_def

lemmas pool_eval =
  arrivals_def nWorkers_def exSettings_def pool0_def exBatches_def

text \<open>
  C2. In the per-file dispatcher, for every order in which worker results arrive, batches
  are forwarded to the assembler and the primary writer in strictly increasing BatchIndex
  order, and the sidecar pipe receives one JSON line per span of batch k, in span order,
  before the primary bytes of batch k.

  The gate does this in every run in which no call of \<open>Encode\<close>, \<open>Assemble\<close> or
  \<open>io.Copy\<close> fails (\<open>gate_commit_order\<close>, \<open>gate_order_independent\<close>). It does not once
  \<open>Assemble\<close> has failed: the batch stays in \<open>buf\<close> under \<open>expect\<close>, and the next
  successful result runs the flush loop on it again. With three workers, the linear
  assembler and a file of three batches, let the job of batch 1 fail and the results
  arrive in the order 1, 0, 2. The error of batch 1 cancels the context; batch 0 is
  written to the sidecar and handed to the assembler, which returns \<open>ctx.Err()\<close>; when
  the result of batch 2 arrives, the row of batch 0 is written to the sidecar a second
  time and batch 0 is handed to the assembler a second time. No primary bytes of batch 0
  are ever written, and \<open>firstErr\<close>, which held the error of batch 1, now holds
  \<open>context.Canceled\<close>.
\<close>

theorem gate_repeats_failed_batch:
  "arrivals (exSettings 3) exBatches [Take, Take, Take, Finish 1, Finish 0, Finish 2]
     = Some [1, 0, 2]
   \<and> events (gateRun linearEnv ''f'' exBatches
               [errRes 1 (Sentinel ErrRateLimited), okRes 0, okRes 2])
     = [SidecarLine 0 (exRow 0), AssembleCall 0 [exSpan 0],
        SidecarLine 0 (exRow 0), AssembleCall 0 [exSpan 0]]
   \<and> firstErr (gateRun linearEnv ''f'' exBatches [errRes 1 (Sentinel ErrRateLimited)])
     = Some (Sentinel ErrRateLimited)
   \<and> firstErr (gateRun linearEnv ''f'' exBatches
                 [errRes 1 (Sentinel ErrRateLimited), okRes 0, okRes 2])
     = Some (Sentinel Canceled)"
  by (simp add: pool_eval gate_eval flush_None flush_break flush_next)

text \<open>
  C7. In the per-file commit gate, for every schedule of worker completions, the buffer
  holding completed but not-yet-committed out-of-order batches never contains more than
  concurrency - 1 entries.

  Nothing in \<open>Run\<close> ties the size of \<open>buf\<close> to \<open>Concurrency\<close>: the gate moves every
  successful result from \<open>outCh\<close> into \<open>buf\<close> at once, so one slow job lets another worker
  fill the buffer with all later batches. What bounds the buffer is the number of
  batches of the file: after any results whatever it holds at most that many entries,
  and in a run in which no call of \<open>Encode\<close>, \<open>Assemble\<close> or \<open>io.Copy\<close> fails (and each
  batch has at most one result) at most the number of batches after \<open>expect\<close>.
\<close>

theorem gate_buffer_bound:
  assumes "inRange batches rs"
  shows "length (buf (gateRun env fid batches rs)) \<le> length batches
     \<and> (noFail env fid rs \<and> wellFormed batches rs \<longrightarrow>
          int (length (buf (gateRun env fid batches rs)))
            \<le> max 0 (int (length batches) - 1 - expect (gateRun env fid batches rs)))"
proof (intro conjI impI)
  from assms show "length (buf (gateRun env fid batches rs)) \<le> length batches"
    unfolding inRange_def by (rule gateRun_buf_length)
next
  assume a: "noFail env fid rs \<and> wellFormed batches rs"
  then have nf: "noFail env fid rs" and wf: "wellFormed batches rs" by simp_all
  from gateRun_inv [OF nf wf]
  obtain c where inv: "gateInv env fid batches (okMap rs) c (gateRun env fid batches rs)"
    by blast
  have "\<forall>k v. okMap rs k = Some v \<longrightarrow> 0 \<le> k \<and> k < int (length batches)"
    using okMap_range [OF wf] by blast
  from gateInv_buf_bound [OF inv this]
  show "int (length (buf (gateRun env fid batches rs)))
          \<le> max 0 (int (length batches) - 1 - expect (gateRun env fid batches rs))" .
qed

lemma two_results:
  "inRange exBatches [okRes 1, okRes 2]
   \<and> noFail linearEnv ''f'' [okRes 1, okRes 2]
   \<and> wellFormed exBatches [okRes 1, okRes 2]"
  by (simp add: inRange_def noFail_def assembleOK_def anyFailed_def wellFormed_def
        okRes_def exBatches_def exBatch_def exSpan_def linearEnv_def Assemble_def)

theorem gate_buffer_bound_witness:
  "inRange exBatches [okRes 1, okRes 2]
   \<and> noFail linearEnv ''f'' [okRes 1, okRes 2]
   \<and> wellFormed exBatches [okRes 1, okRes 2]
   \<and> length (buf (gateRun linearEnv ''f'' exBatches [okRes 1, okRes 2])) \<le> length exBatches
   \<and> int (length (buf (gateRun linearEnv ''f'' exBatches [okRes 1, okRes 2])))
       \<le> max 0 (int (length exBatches) - 1
                  - expect (gateRun linearEnv ''f'' exBatches [okRes 1, okRes 2]))"
  using gate_buffer_bound [of exBatches "[okRes 1, okRes 2]" linearEnv "''f''"] two_results
  by simp

theorem gate_buffer_counterexample:
  "arrivals (exSettings 2) exBatches [Take, Take, Finish 1, Take, Finish 2] = Some [1, 2]
   \<and> map fst (buf (gateRun linearEnv ''f'' exBatches (map okRes [1, 2]))) = [1, 2]
   \<and> \<not> int (length (buf (gateRun linearEnv ''f'' exBatches (map okRes [1, 2]))))
         \<le> Concurrency (exSettings 2) - 1"
  by (simp add: pool_eval gate_eval flush_None flush_break flush_next)

section \<open>Properties of the rate gate\<close>
































text \<open>
  A call of \<open>Wait\<close> that returns \<open>nil\<close> is a number of turns of the entry with its ask,
  of which the last one, and no other, admits the ask.
\<close>

lemma waitLoop_turns:
  "waitLoop e a rounds = (e', Some None) \<Longrightarrow>
     \<exists>k < length rounds.
       turns e (map (\<lambda>(c, now, cs). (now, a)) (take (Suc k) rounds))
         = (e', [(fst (snd (rounds ! k)), a)])"
proof (induction rounds arbitrary: e)
  case Nil
  then show ?case by simp
next
  case (Cons r rounds)
  obtain c now cs where r: "r = (c, now, cs)" by (cases r)
  from Cons.prems r have c: "c = None" by (auto split: option.splits)
  obtain e1 ok where at: "attempt e now a = (e1, ok)" by (cases "attempt e now a")
  show ?case
  proof (cases ok)
    case True
    with Cons.prems r c at have "e' = e1" by simp
    with at True have "turns e (map (\<lambda>(c, now, cs). (now, a)) (take (Suc 0) (r # rounds)))
         = (e', [(fst (snd ((r # rounds) ! 0)), a)])"
      by (simp add: r)
    then show ?thesis by blast
  next
    case False
    with Cons.prems r c at have w: "waitLoop e1 a rounds = (e', Some None)"
      by (auto split: option.splits)
    from Cons.IH [OF w] obtain k where k: "k < length rounds"
      and t: "turns e1 (map (\<lambda>(c, now, cs). (now, a)) (take (Suc k) rounds))
         = (e', [(fst (snd (rounds ! k)), a)])" by blast
    from at False t
    have "turns e (map (\<lambda>(c, now, cs). (now, a)) (take (Suc (Suc k)) (r # rounds)))
         = (e', [(fst (snd ((r # rounds) ! Suc k)), a)])"
      by (simp add: r)
    with k show ?thesis by (intro exI [of _ "Suc k"]) simp
  qed
qed







end
